theory Spec2Isabelle
  imports Main
begin

section \<open>The Quoridor rules engine of maze.py\<close>

text \<open>
  The theory embeds the rule logic of class \<open>QuoridorGame\<close> (src/maze.py, lines 75-324)
  and the board-click dispatch of its event loop (lines 742-766).  Rendering is left out.
  A Python exception (IndexError, KeyError, ZeroDivisionError) is the result \<open>None\<close>;
  a method that returns a flag and mutates \<open>self\<close> returns the flag and the new state.
\<close>

subsection \<open>Data\<close>

type_synonym cell = "int \<times> int"

text \<open>\<open>self.BOARD_SIZE = 9\<close> (line 14).\<close>

definition BOARD_SIZE :: int where
  "BOARD_SIZE = 9"

text \<open>
  The texts assigned to \<open>self.message\<close>; the two formatted ones carry the player number
  they print (\<open>current_player + 1\<close>).
\<close>

datatype message =
    Players_turn nat
  | Player_wins nat
  | No_walls_remaining
  | Invalid_wall_placement
  | Invalid_move

text \<open>
  The fields \<open>initialize_game\<close> assigns under "Game state", the wall sets, the per-player
  lists and the cached \<open>possible_moves\<close>.  \<open>player_walls\<close> is the dict from player index to
  the list of \<open>(tag, r, c)\<close> triples.  The hover and button fields are left out: no rule
  reads them.
\<close>

record game =
  num_players :: nat
  player_positions :: "cell list"
  win_rows :: "int option list"
  win_cols :: "int option list"
  walls_remaining :: "int list"
  player_walls :: "nat \<rightharpoonup> (string \<times> int \<times> int) list"
  horizontal_walls :: "cell set"
  vertical_walls :: "cell set"
  current_player :: nat
  game_over :: bool
  winner :: "nat option"
  message :: message
  possible_moves :: "cell list"

subsection \<open>Board geometry and wall tests\<close>

text \<open>\<open>0 <= r < BOARD_SIZE and 0 <= c < BOARD_SIZE\<close> (lines 125, 145, 149, 211).\<close>

definition in_board :: "cell \<Rightarrow> bool" where
  "in_board p = (0 \<le> fst p \<and> fst p < BOARD_SIZE \<and> 0 \<le> snd p \<and> snd p < BOARD_SIZE)"

text \<open>\<open>directions = [(-1, 0), (1, 0), (0, -1), (0, 1)]\<close> (lines 119, 205).\<close>

definition directions :: "(int \<times> int) list" where
  "directions = [(-1, 0), (1, 0), (0, -1), (0, 1)]"

text \<open>
  The four-line wall test that the source repeats at lines 129-136, 151-158, 164-171 and
  215-222: it is true when one of the four \<open>continue\<close> statements fires for a step
  \<open>(dr, dc)\<close> out of the cell \<open>(r, c)\<close>.
\<close>

definition wall_blocks :: "cell set \<Rightarrow> cell set \<Rightarrow> cell \<Rightarrow> int \<times> int \<Rightarrow> bool" where
  "wall_blocks H V p d =
     (case p of (r, c) \<Rightarrow> case d of (dr, dc) \<Rightarrow>
        (dr = -1 \<and> (r - 1, c) \<in> H) \<or>
        (dr = 1 \<and> (r, c) \<in> H) \<or>
        (dc = -1 \<and> (r, c - 1) \<in> V) \<or>
        (dc = 1 \<and> (r, c) \<in> V))"

definition shift :: "cell \<Rightarrow> int \<times> int \<Rightarrow> cell" where
  "shift p d = (fst p + fst d, snd p + snd d)"

subsection \<open>Reachability: \<open>find_path_to_goal\<close>\<close>

text \<open>
  The goal test of lines 200-201 and 307-308 for player \<open>i\<close> at a cell: \<open>win_rows[i]\<close> is
  read first, \<open>win_cols[i]\<close> only when the row test is false.
\<close>

definition at_goal :: "game \<Rightarrow> nat \<Rightarrow> cell \<Rightarrow> bool option" where
  "at_goal s i p =
     (if length (win_rows s) \<le> i then None
      else if win_rows s ! i = Some (fst p) then Some True
      else if length (win_cols s) \<le> i then None
      else Some (win_cols s ! i = Some (snd p)))"

text \<open>
  One pass of the inner \<open>for dr, dc in directions\<close> body (lines 207-227) on the pair of
  queue and visited set.
\<close>

definition visit :: "cell set \<Rightarrow> cell set \<Rightarrow> cell \<Rightarrow> cell list \<times> cell set \<Rightarrow> int \<times> int
    \<Rightarrow> cell list \<times> cell set" where
  "visit H V cur qv d =
     (let new = shift cur d in
      if \<not> in_board new then qv
      else if wall_blocks H V cur d then qv
      else if new \<notin> snd qv then (fst qv @ [new], insert new (snd qv))
      else qv)"

definition expand :: "cell set \<Rightarrow> cell set \<Rightarrow> cell \<Rightarrow> cell list \<times> cell set
    \<Rightarrow> cell list \<times> cell set" where
  "expand H V cur qv = foldl (visit H V cur) qv directions"

definition unvisited :: "cell set \<Rightarrow> nat" where
  "unvisited visited = card ({p. in_board p} - visited)"

lemma board_eq: "{p. in_board p} = {0..<BOARD_SIZE} \<times> {0..<BOARD_SIZE}"
  by (auto simp: in_board_def)

lemma finite_board: "finite {p. in_board p}"
  unfolding board_eq by simp

lemma unvisited_insert:
  assumes "in_board p" "p \<notin> visited"
  shows "Suc (unvisited (insert p visited)) = unvisited visited"
proof -
  have fin: "finite ({p. in_board p} - visited)"
    using finite_board by simp
  have mem: "p \<in> {p. in_board p} - visited"
    using assms by simp
  have "{p. in_board p} - insert p visited = ({p. in_board p} - visited) - {p}"
    by auto
  then have "unvisited (insert p visited) = card (({p. in_board p} - visited) - {p})"
    by (simp add: unvisited_def)
  also have "\<dots> = card ({p. in_board p} - visited) - 1"
    using fin mem by (simp add: card_Diff_singleton)
  finally show ?thesis
    using fin mem card_gt_0_iff [of "{p. in_board p} - visited"]
    by (auto simp: unvisited_def)
qed

lemma visit_measure:
  "2 * unvisited (snd (visit H V cur qv d)) + length (fst (visit H V cur qv d))
     \<le> 2 * unvisited (snd qv) + length (fst qv)"
proof (cases "in_board (shift cur d) \<and> \<not> wall_blocks H V cur d \<and> shift cur d \<notin> snd qv")
  case True
  then have "Suc (unvisited (insert (shift cur d) (snd qv))) = unvisited (snd qv)"
    by (simp add: unvisited_insert)
  with True show ?thesis
    by (simp add: visit_def Let_def)
next
  case False
  then show ?thesis
    by (auto simp: visit_def Let_def)
qed

lemma foldl_visit_measure:
  "2 * unvisited (snd (foldl (visit H V cur) qv ds)) + length (fst (foldl (visit H V cur) qv ds))
     \<le> 2 * unvisited (snd qv) + length (fst qv)"
proof (induction ds arbitrary: qv)
  case Nil
  show ?case by simp
next
  case (Cons d ds)
  have "2 * unvisited (snd (foldl (visit H V cur) (visit H V cur qv d) ds))
          + length (fst (foldl (visit H V cur) (visit H V cur qv d) ds))
        \<le> 2 * unvisited (snd (visit H V cur qv d)) + length (fst (visit H V cur qv d))"
    by (rule Cons.IH)
  also have "\<dots> \<le> 2 * unvisited (snd qv) + length (fst qv)"
    by (rule visit_measure)
  finally show ?case by simp
qed

lemma expand_measure:
  "2 * unvisited (snd (expand H V cur qv)) + length (fst (expand H V cur qv))
     \<le> 2 * unvisited (snd qv) + length (fst qv)"
  unfolding expand_def by (rule foldl_visit_measure)

text \<open>
  The \<open>while queue\<close> loop of lines 196-229: pop the head, return \<open>True\<close> at a goal cell,
  otherwise push the unvisited neighbours; \<open>False\<close> when the queue is empty.  The goal
  test is a parameter; \<open>None\<close> is its exception.
\<close>

function bfs :: "(cell \<Rightarrow> bool option) \<Rightarrow> cell set \<Rightarrow> cell set \<Rightarrow> cell list \<Rightarrow> cell set
    \<Rightarrow> bool option" where
  "bfs goal H V [] visited = Some False"
| "bfs goal H V (cur # queue) visited =
     (case goal cur of
        None \<Rightarrow> None
      | Some True \<Rightarrow> Some True
      | Some False \<Rightarrow>
          bfs goal H V (fst (expand H V cur (queue, visited)))
            (snd (expand H V cur (queue, visited))))"
  by pat_completeness auto
termination
proof (relation "measure (\<lambda>(goal, H, V, queue, visited). 2 * unvisited visited + length queue)")
  show "wf (measure (\<lambda>(goal, H, V, queue, visited). 2 * unvisited visited + length queue))"
    by simp
next
  fix goal :: "cell \<Rightarrow> bool option" and H V :: "cell set" and cur :: cell
    and queue :: "cell list" and visited :: "cell set" and x2 :: bool
  show "((goal, H, V, fst (expand H V cur (queue, visited)),
           snd (expand H V cur (queue, visited))),
          (goal, H, V, cur # queue, visited))
        \<in> measure (\<lambda>(goal, H, V, queue, visited). 2 * unvisited visited + length queue)"
    using expand_measure [of H V cur "(queue, visited)"] by (simp add: case_prod_beta)
qed

text \<open>
  \<open>find_path_to_goal\<close> (lines 183-229).  An omitted wall argument (\<open>None\<close>) stands for a
  copy of the live set.
\<close>

definition find_path_to_goal :: "game \<Rightarrow> nat \<Rightarrow> cell set option \<Rightarrow> cell set option
    \<Rightarrow> bool option" where
  "find_path_to_goal s player_idx test_walls_h test_walls_v =
     (let H = (case test_walls_h of None \<Rightarrow> horizontal_walls s | Some h \<Rightarrow> h);
          V = (case test_walls_v of None \<Rightarrow> vertical_walls s | Some v \<Rightarrow> v)
      in if length (player_positions s) \<le> player_idx then None
         else bfs (at_goal s player_idx) H V [player_positions s ! player_idx]
                {player_positions s ! player_idx})"

subsection \<open>Move generation: \<open>get_possible_moves\<close>\<close>

text \<open>
  The iterable of the side-jump loop (line 147), a nested conditional expression:
  \<open>[(-dr, dc), (dr, -dc)] if dr != 0 and dc != 0 else
   [(dr+1, dc), (dr-1, dc)] if dr != 0 else [(dr, dc+1), (dr, dc-1)]\<close>.
\<close>

definition side_steps :: "int \<times> int \<Rightarrow> (int \<times> int) list" where
  "side_steps d =
     (case d of (dr, dc) \<Rightarrow>
        if dr \<noteq> 0 \<and> dc \<noteq> 0 then [(- dr, dc), (dr, - dc)]
        else if dr \<noteq> 0 then [(dr + 1, dc), (dr - 1, dc)]
        else [(dr, dc + 1), (dr, dc - 1)])"

text \<open>
  The body of the side-jump loop (lines 148-160) for one \<open>(side_dr, side_dc)\<close>: what it
  appends to \<open>possible\<close>.
\<close>

definition side_jump :: "game \<Rightarrow> cell \<Rightarrow> int \<times> int \<Rightarrow> cell list" where
  "side_jump s new side =
     (let diag = shift new side in
      if in_board diag then
        if wall_blocks (horizontal_walls s) (vertical_walls s) new side then []
        else if diag \<notin> set (player_positions s) then [diag]
        else []
      else [])"

text \<open>
  The body of the direction loop (lines 122-179) for one \<open>(dr, dc)\<close> with the player at
  \<open>p\<close>: what it appends to \<open>possible\<close>.
\<close>

definition moves_in_direction :: "game \<Rightarrow> cell \<Rightarrow> int \<times> int \<Rightarrow> cell list" where
  "moves_in_direction s p d =
     (let new = shift p d in
      if \<not> in_board new then []
      else if wall_blocks (horizontal_walls s) (vertical_walls s) p d then []
      else if new \<in> set (player_positions s) then
        (let jump = shift new d in
         if \<not> in_board jump then concat (map (side_jump s new) (side_steps d))
         else if wall_blocks (horizontal_walls s) (vertical_walls s) new d then []
         else if jump \<in> set (player_positions s) then []
         else [jump])
      else [new])"

text \<open>\<open>get_possible_moves\<close> (lines 113-181).\<close>

definition get_possible_moves :: "game \<Rightarrow> cell list option" where
  "get_possible_moves s =
     (if length (player_positions s) \<le> current_player s then None
      else Some (concat (map (moves_in_direction s (player_positions s ! current_player s))
                   directions)))"

subsection \<open>Wall legality: \<open>is_valid_wall_placement\<close>\<close>

text \<open>
  The skip test of lines 265-266 for player \<open>p_idx\<close>: whether the player stands on the
  goal row or column.
\<close>

definition on_goal :: "game \<Rightarrow> nat \<Rightarrow> bool option" where
  "on_goal s p_idx =
     (if length (player_positions s) \<le> p_idx then None
      else at_goal s p_idx (player_positions s ! p_idx))"

text \<open>The loop \<open>for p_idx in range(self.num_players)\<close> of lines 263-272.\<close>

fun all_reach :: "game \<Rightarrow> cell set \<Rightarrow> cell set \<Rightarrow> nat list \<Rightarrow> bool option" where
  "all_reach s test_walls_h test_walls_v [] = Some True"
| "all_reach s test_walls_h test_walls_v (p_idx # rest) =
     (case on_goal s p_idx of
        None \<Rightarrow> None
      | Some True \<Rightarrow> all_reach s test_walls_h test_walls_v rest
      | Some False \<Rightarrow>
          (case find_path_to_goal s p_idx (Some test_walls_h) (Some test_walls_v) of
             None \<Rightarrow> None
           | Some False \<Rightarrow> Some False
           | Some True \<Rightarrow> all_reach s test_walls_h test_walls_v rest))"

text \<open>
  The trial wall sets of lines 252-260: copies of the live sets with the candidate's two
  blocker units added to the set of its orientation.  \<open>wall_type\<close> is the string of the
  source; every string other than \<open>"horizontal"\<close> takes the \<open>else\<close> branch.
\<close>

definition test_walls_h :: "game \<Rightarrow> int \<Rightarrow> int \<Rightarrow> string \<Rightarrow> cell set" where
  "test_walls_h s r c wall_type =
     (if wall_type = ''horizontal''
      then insert (r, c + 1) (insert (r, c) (horizontal_walls s))
      else horizontal_walls s)"

definition test_walls_v :: "game \<Rightarrow> int \<Rightarrow> int \<Rightarrow> string \<Rightarrow> cell set" where
  "test_walls_v s r c wall_type =
     (if wall_type = ''horizontal''
      then vertical_walls s
      else insert (r + 1, c) (insert (r, c) (vertical_walls s)))"

text \<open>
  \<open>is_valid_wall_placement\<close> (lines 231-272): the bounds test, the test for an existing
  wall (every string other than \<open>"horizontal"\<close> takes the \<open>else\<close> branch of line 241), the
  two tests for intersecting walls (only \<open>"vertical"\<close> takes the one of line 248), and the
  path test on the trial sets.
\<close>

definition is_valid_wall_placement :: "game \<Rightarrow> int \<Rightarrow> int \<Rightarrow> string \<Rightarrow> bool option" where
  "is_valid_wall_placement s r c wall_type =
     (if \<not> (0 \<le> r \<and> r < BOARD_SIZE - 1 \<and> 0 \<le> c \<and> c < BOARD_SIZE - 1) then Some False
      else if (if wall_type = ''horizontal''
               then (r, c) \<in> horizontal_walls s \<or> (r, c + 1) \<in> horizontal_walls s
               else (r, c) \<in> vertical_walls s \<or> (r + 1, c) \<in> vertical_walls s)
        then Some False
      else if wall_type = ''horizontal'' \<and>
              ((r, c) \<in> vertical_walls s \<and> (r + 1, c) \<in> vertical_walls s) then Some False
      else if wall_type = ''vertical'' \<and>
              ((r, c) \<in> horizontal_walls s \<and> (r, c + 1) \<in> horizontal_walls s) then Some False
      else all_reach s (test_walls_h s r c wall_type) (test_walls_v s r c wall_type)
             [0..<num_players s])"

subsection \<open>Turns: \<open>next_turn\<close>, \<open>place_wall\<close>, \<open>move_player\<close>, \<open>initialize_game\<close>\<close>

text \<open>
  \<open>next_turn\<close> (lines 317-324): nothing when the game is over; otherwise the player index
  advances modulo \<open>num_players\<close> (ZeroDivisionError for 0) and the cache of possible moves
  is recomputed for the new player.
\<close>

definition next_turn :: "game \<Rightarrow> game option" where
  "next_turn s =
     (if \<not> game_over s then
        if num_players s = 0 then None
        else
          (let s1 = s\<lparr>current_player := (current_player s + 1) mod num_players s\<rparr>;
               s2 = s1\<lparr>message := Players_turn (current_player s1 + 1)\<rparr>
           in case get_possible_moves s2 of
                None \<Rightarrow> None
              | Some pm \<Rightarrow> Some (s2\<lparr>possible_moves := pm\<rparr>))
      else Some s)"

text \<open>\<open>place_wall\<close> (lines 274-295).\<close>

definition place_wall :: "game \<Rightarrow> int \<Rightarrow> int \<Rightarrow> string \<Rightarrow> (bool \<times> game) option" where
  "place_wall s r c wall_type =
     (if length (walls_remaining s) \<le> current_player s then None
      else if walls_remaining s ! current_player s \<le> 0
        then Some (False, s\<lparr>message := No_walls_remaining\<rparr>)
      else
        (case is_valid_wall_placement s r c wall_type of
           None \<Rightarrow> None
         | Some False \<Rightarrow> Some (False, s\<lparr>message := Invalid_wall_placement\<rparr>)
         | Some True \<Rightarrow>
             (case player_walls s (current_player s) of
                None \<Rightarrow> None
              | Some placed \<Rightarrow>
                  (let s1 = (if wall_type = ''horizontal''
                             then s\<lparr>horizontal_walls :=
                                      insert (r, c + 1) (insert (r, c) (horizontal_walls s)),
                                    player_walls :=
                                      (player_walls s)(current_player s \<mapsto> placed @ [(''h'', r, c)])\<rparr>
                             else s\<lparr>vertical_walls :=
                                      insert (r + 1, c) (insert (r, c) (vertical_walls s)),
                                    player_walls :=
                                      (player_walls s)(current_player s \<mapsto> placed @ [(''v'', r, c)])\<rparr>);
                       s2 = s1\<lparr>walls_remaining :=
                                 (walls_remaining s1)[current_player s1 :=
                                    walls_remaining s1 ! current_player s1 - 1]\<rparr>
                   in case next_turn s2 of
                        None \<Rightarrow> None
                      | Some s3 \<Rightarrow> Some (True, s3)))))"

text \<open>\<open>move_player\<close> (lines 297-315).\<close>

definition move_player :: "game \<Rightarrow> int \<Rightarrow> int \<Rightarrow> (bool \<times> game) option" where
  "move_player s r c =
     (case get_possible_moves s of
        None \<Rightarrow> None
      | Some pm \<Rightarrow>
          if (r, c) \<notin> set pm then Some (False, s\<lparr>message := Invalid_move\<rparr>)
          else
            (let s1 = s\<lparr>player_positions := (player_positions s)[current_player s := (r, c)]\<rparr>
             in case at_goal s1 (current_player s1) (r, c) of
                  None \<Rightarrow> None
                | Some True \<Rightarrow>
                    Some (True, s1\<lparr>game_over := True, winner := Some (current_player s1),
                                   message := Player_wins (current_player s1 + 1)\<rparr>)
                | Some False \<Rightarrow>
                    (case next_turn s1 of
                       None \<Rightarrow> None
                     | Some s2 \<Rightarrow> Some (True, s2))))"

text \<open>
  \<open>initialize_game\<close> (lines 75-111) for a given \<open>self.num_players\<close>; the constructor sets
  2 (line 72).  The four-element lists are cut to \<open>num_players\<close> entries.
\<close>

definition initialize_game :: "nat \<Rightarrow> game option" where
  "initialize_game n =
     (let s = \<lparr>num_players = n,
               player_positions =
                 take n [(BOARD_SIZE - 1, BOARD_SIZE div 2), (0, BOARD_SIZE div 2),
                         (BOARD_SIZE div 2, 0), (BOARD_SIZE div 2, BOARD_SIZE - 1)],
               win_rows = take n [Some 0, Some (BOARD_SIZE - 1), None, None],
               win_cols = take n [None, None, Some (BOARD_SIZE - 1), Some 0],
               walls_remaining = take n [10, 10, 5, 5],
               player_walls = (\<lambda>i. if i < n then Some [] else None),
               horizontal_walls = {},
               vertical_walls = {},
               current_player = 0,
               game_over = False,
               winner = None,
               message = Players_turn 1,
               possible_moves = []\<rparr>
      in case get_possible_moves s of
           None \<Rightarrow> None
         | Some pm \<Rightarrow> Some (s\<lparr>possible_moves := pm\<rparr>))"

subsection \<open>The event loop's dispatch of a board click\<close>

text \<open>
  Lines 742-766 of \<open>run\<close>: a click on the board at cell \<open>(r, c)\<close> reaches \<open>move_player\<close> or
  \<open>place_wall\<close> only when the game is not over.  \<open>wall_placement_mode\<close> and
  \<open>selected_wall_type\<close> are the two fields of the user interface the dispatch reads; the
  wall anchor is the clicked cell clamped to \<open>0 .. BOARD_SIZE - 2\<close>.  The flag the two
  methods return is dropped, as the loop drops it.
\<close>

definition board_click :: "bool \<Rightarrow> string \<Rightarrow> game \<Rightarrow> int \<Rightarrow> int \<Rightarrow> game option" where
  "board_click wall_placement_mode selected_wall_type s r c =
     (if \<not> game_over s then
        if \<not> wall_placement_mode then map_option snd (move_player s r c)
        else
          (let wall_r = max 0 (min r (BOARD_SIZE - 2));
               wall_c = max 0 (min c (BOARD_SIZE - 2))
           in map_option snd (place_wall s wall_r wall_c selected_wall_type))
      else Some s)"

text \<open>
  The event loop over a list of board clicks.  Each click carries the values the two
  user-interface fields \<open>wall_placement_mode\<close> and \<open>selected_wall_type\<close> have when it
  arrives (the buttons handled at lines 723-732 set them), and the clicked cell.
\<close>

fun run_clicks :: "game \<Rightarrow> (bool \<times> string \<times> int \<times> int) list \<Rightarrow> game option" where
  "run_clicks s [] = Some s"
| "run_clicks s ((wall_placement_mode, selected_wall_type, r, c) # rest) =
     (case board_click wall_placement_mode selected_wall_type s r c of
        None \<Rightarrow> None
      | Some s' \<Rightarrow> run_clicks s' rest)"

subsection \<open>Reachable states\<close>

text \<open>
  The states a game passes through: an initial state for one to four players, and every
  state a returning call of \<open>move_player\<close> or \<open>place_wall\<close> leaves, accepted or rejected,
  with any arguments.
\<close>

inductive reachable :: "game \<Rightarrow> bool" where
  reachable_init: "0 < n \<Longrightarrow> n \<le> 4 \<Longrightarrow> initialize_game n = Some s \<Longrightarrow> reachable s"
| reachable_move: "reachable s \<Longrightarrow> move_player s r c = Some (ok, s') \<Longrightarrow> reachable s'"
| reachable_wall: "reachable s \<Longrightarrow> place_wall s r c wall_type = Some (ok, s') \<Longrightarrow> reachable s'"

text \<open>
  The state the constructor leaves (lines 72-73): \<open>num_players = 2\<close>, then
  \<open>initialize_game()\<close>.  \<open>initialize_game_2\<close> below shows that it is the value of
  \<open>initialize_game 2\<close>.
\<close>

definition two_player_start :: game where
  "two_player_start =
     \<lparr>num_players = 2,
      player_positions = [(8, 4), (0, 4)],
      win_rows = [Some 0, Some 8],
      win_cols = [None, None],
      walls_remaining = [10, 10],
      player_walls = (\<lambda>i. if i < 2 then Some [] else None),
      horizontal_walls = {},
      vertical_walls = {},
      current_player = 0,
      game_over = False,
      winner = None,
      message = Players_turn 1,
      possible_moves = [(7, 4), (8, 3), (8, 5)]\<rparr>"

subsection \<open>Example games\<close>

text \<open>
  Two wall clicks from the opening position: player 0 places a horizontal wall anchored
  at \<open>(7, 4)\<close>, above the cells \<open>(8, 4)\<close> and \<open>(8, 5)\<close>; player 1 places a vertical wall
  anchored at \<open>(7, 3)\<close>, left of \<open>(8, 4)\<close>.  A vertical wall anchored at \<open>(7, 5)\<close> would
  then close player 0 in.
\<close>

definition fence_clicks :: "(bool \<times> string \<times> int \<times> int) list" where
  "fence_clicks = [(True, ''horizontal'', 7, 4), (True, ''vertical'', 7, 3)]"

text \<open>
  Fourteen move clicks from the opening position: player 0 walks up column 4 to
  \<open>(1, 4)\<close> while player 1 steps between \<open>(0, 3)\<close> and \<open>(0, 2)\<close>.
\<close>

definition approach_clicks :: "(bool \<times> string \<times> int \<times> int) list" where
  "approach_clicks =
     [(False, ''horizontal'', 7, 4), (False, ''horizontal'', 0, 3),
      (False, ''horizontal'', 6, 4), (False, ''horizontal'', 0, 2),
      (False, ''horizontal'', 5, 4), (False, ''horizontal'', 0, 3),
      (False, ''horizontal'', 4, 4), (False, ''horizontal'', 0, 2),
      (False, ''horizontal'', 3, 4), (False, ''horizontal'', 0, 3),
      (False, ''horizontal'', 2, 4), (False, ''horizontal'', 0, 2),
      (False, ''horizontal'', 1, 4), (False, ''horizontal'', 0, 3)]"

text \<open>The same game with one more click: player 0 steps onto row 0 and wins.\<close>

definition winning_clicks :: "(bool \<times> string \<times> int \<times> int) list" where
  "winning_clicks = approach_clicks @ [(False, ''horizontal'', 0, 4)]"

text \<open>
  Thirteen move clicks and one wall click from the opening position: player 0 walks up
  column 4 to \<open>(1, 4)\<close> while player 1 steps between \<open>(0, 3)\<close> and \<open>(0, 4)\<close>, and player 1
  then places a horizontal wall at \<open>(7, 0)\<close>.  Player 0, to move, stands directly below
  player 1, who stands on the top edge.
\<close>

definition edge_clicks :: "(bool \<times> string \<times> int \<times> int) list" where
  "edge_clicks =
     [(False, ''horizontal'', 7, 4), (False, ''horizontal'', 0, 3),
      (False, ''horizontal'', 6, 4), (False, ''horizontal'', 0, 4),
      (False, ''horizontal'', 5, 4), (False, ''horizontal'', 0, 3),
      (False, ''horizontal'', 4, 4), (False, ''horizontal'', 0, 4),
      (False, ''horizontal'', 3, 4), (False, ''horizontal'', 0, 3),
      (False, ''horizontal'', 2, 4), (False, ''horizontal'', 0, 4),
      (False, ''horizontal'', 1, 4), (True, ''horizontal'', 7, 0)]"

text \<open>
  The position of the specification's jump example: player 0, to move, at \<open>(4, 4)\<close>,
  player 1 directly above at \<open>(3, 4)\<close>, no walls.
\<close>

definition jump_example :: game where
  "jump_example = two_player_start\<lparr>player_positions := [(4, 4), (3, 4)]\<rparr>"

text \<open>
  A position with player 0 at \<open>(1, 4)\<close> and player 1 at \<open>(7, 4)\<close>, a vertical wall anchored
  at \<open>(3, 3)\<close> and a horizontal wall anchored at \<open>(5, 5)\<close>.
\<close>

definition crossing_example :: game where
  "crossing_example =
     two_player_start\<lparr>player_positions := [(1, 4), (7, 4)],
       horizontal_walls := {(5, 5), (5, 6)},
       vertical_walls := {(3, 3), (4, 3)}\<rparr>"

subsection \<open>Paths on the board\<close>

text \<open>
  A single orthogonal step from \<open>p\<close> to \<open>q\<close> that stays on the board and crosses no
  blocker unit: the unit \<open>(r, c)\<close> of the horizontal set lies between the cells \<open>(r, c)\<close>
  and \<open>(r + 1, c)\<close>, the unit \<open>(r, c)\<close> of the vertical set between \<open>(r, c)\<close> and
  \<open>(r, c + 1)\<close>.
\<close>

definition free_step :: "cell set \<Rightarrow> cell set \<Rightarrow> cell \<Rightarrow> cell \<Rightarrow> bool" where
  "free_step H V p q =
     (in_board q \<and>
      ((q = (fst p - 1, snd p) \<and> q \<notin> H) \<or>
       (q = (fst p + 1, snd p) \<and> p \<notin> H) \<or>
       (q = (fst p, snd p - 1) \<and> q \<notin> V) \<or>
       (q = (fst p, snd p + 1) \<and> p \<notin> V)))"

text \<open>A sequence of such steps leading from \<open>p\<close> to a cell.\<close>

inductive walk :: "cell set \<Rightarrow> cell set \<Rightarrow> cell \<Rightarrow> cell \<Rightarrow> bool" for H V p where
  walk_here: "walk H V p p"
| walk_step: "walk H V p q \<Longrightarrow> free_step H V q q' \<Longrightarrow> walk H V p q'"

text \<open>
  The goal predicate of player \<open>i\<close>: the row is the player's goal row or the column is
  the player's goal column.
\<close>

definition goal_cell :: "game \<Rightarrow> nat \<Rightarrow> cell \<Rightarrow> bool" where
  "goal_cell s i p = (win_rows s ! i = Some (fst p) \<or> win_cols s ! i = Some (snd p))"

text \<open>Player \<open>i\<close> has a path to a goal cell under the wall sets \<open>H\<close> and \<open>V\<close>.\<close>

definition has_path :: "game \<Rightarrow> cell set \<Rightarrow> cell set \<Rightarrow> nat \<Rightarrow> bool" where
  "has_path s H V i = (\<exists>g. walk H V (player_positions s ! i) g \<and> goal_cell s i g)"

subsection \<open>Wall segments\<close>

text \<open>
  The anchor of a wall segment lies on an inner intersection:
  \<open>0 \<le> r, c < BOARD_SIZE - 1\<close>.
\<close>

definition anchor_in_bounds :: "int \<Rightarrow> int \<Rightarrow> bool" where
  "anchor_in_bounds r c = (0 \<le> r \<and> r < BOARD_SIZE - 1 \<and> 0 \<le> c \<and> c < BOARD_SIZE - 1)"

text \<open>
  A candidate overlaps when one of its two blocker units is taken: \<open>(r, c)\<close> and
  \<open>(r, c + 1)\<close> of the horizontal set for \<open>"horizontal"\<close>, \<open>(r, c)\<close> and \<open>(r + 1, c)\<close> of the
  vertical set otherwise.
\<close>

definition would_overlap :: "game \<Rightarrow> int \<Rightarrow> int \<Rightarrow> string \<Rightarrow> bool" where
  "would_overlap s r c wall_type =
     (if wall_type = ''horizontal''
      then (r, c) \<in> horizontal_walls s \<or> (r, c + 1) \<in> horizontal_walls s
      else (r, c) \<in> vertical_walls s \<or> (r + 1, c) \<in> vertical_walls s)"

text \<open>
  The perpendicular-wall-crossing rule: a horizontal candidate anchored at \<open>(r, c)\<close>
  crosses when the vertical set holds both blocker units that meet at that intersection,
  \<open>(r, c)\<close> and \<open>(r + 1, c)\<close>; a vertical candidate crosses when the horizontal set holds
  both \<open>(r, c)\<close> and \<open>(r, c + 1)\<close>.
\<close>

definition would_cross :: "game \<Rightarrow> int \<Rightarrow> int \<Rightarrow> string \<Rightarrow> bool" where
  "would_cross s r c wall_type =
     ((wall_type = ''horizontal'' \<and> (r, c) \<in> vertical_walls s \<and> (r + 1, c) \<in> vertical_walls s) \<or>
      (wall_type = ''vertical'' \<and> (r, c) \<in> horizontal_walls s \<and> (r, c + 1) \<in> horizontal_walls s))"

subsection \<open>Well-formed states\<close>

text \<open>
  The per-player lists have one entry per player, the dict of placed walls has a key per
  player, and the current player is one of the players.  Every reachable state is
  well-formed (\<open>reachable_well_formed\<close> below), and on a well-formed state no method raises.
\<close>

definition well_formed :: "game \<Rightarrow> bool" where
  "well_formed s =
     (0 < num_players s \<and> current_player s < num_players s \<and>
      length (player_positions s) = num_players s \<and>
      length (win_rows s) = num_players s \<and>
      length (win_cols s) = num_players s \<and>
      length (walls_remaining s) = num_players s \<and>
      (\<forall>i<num_players s. player_walls s i \<noteq> None))"

subsection \<open>Wall inventories\<close>

text \<open>
  Every player has a list of placed walls, and the player's remaining count is the
  allotment of line 89 less the length of that list, and not negative.
\<close>

definition walls_accounted :: "game \<Rightarrow> bool" where
  "walls_accounted s =
     (\<forall>i<num_players s. \<exists>placed. player_walls s i = Some placed \<and>
        0 \<le> walls_remaining s ! i \<and>
        walls_remaining s ! i = [10, 10, 5, 5] ! i - int (length placed))"

section \<open>Correctness of the breadth-first search\<close>

lemma wall_blocks_up: "wall_blocks H V p (-1, 0) = ((fst p - 1, snd p) \<in> H)"
  by (cases p) (simp add: wall_blocks_def)

lemma wall_blocks_down: "wall_blocks H V p (1, 0) = (p \<in> H)"
  by (cases p) (simp add: wall_blocks_def)

lemma wall_blocks_left: "wall_blocks H V p (0, -1) = ((fst p, snd p - 1) \<in> V)"
  by (cases p) (simp add: wall_blocks_def)

lemma wall_blocks_right: "wall_blocks H V p (0, 1) = (p \<in> V)"
  by (cases p) (simp add: wall_blocks_def)

lemma free_step_directions:
  "free_step H V p q \<longleftrightarrow>
     (\<exists>d\<in>set directions. q = shift p d \<and> in_board q \<and> \<not> wall_blocks H V p d)"
  unfolding directions_def free_step_def
  by (simp add: wall_blocks_up wall_blocks_down wall_blocks_left wall_blocks_right shift_def)
    blast

lemma foldl_visit_snd:
  "snd (foldl (visit H V cur) qv ds) =
     snd qv \<union> {q. \<exists>d\<in>set ds. q = shift cur d \<and> in_board q \<and> \<not> wall_blocks H V cur d}"
proof (induction ds arbitrary: qv)
  case Nil
  show ?case by simp
next
  case (Cons d ds)
  have "snd (visit H V cur qv d) =
      snd qv \<union> {q. q = shift cur d \<and> in_board q \<and> \<not> wall_blocks H V cur d}"
    by (auto simp: visit_def Let_def)
  then show ?case
    unfolding foldl_Cons Cons.IH by auto
qed

lemma foldl_visit_fst:
  "set (fst (foldl (visit H V cur) qv ds)) =
     set (fst qv) \<union>
       ({q. \<exists>d\<in>set ds. q = shift cur d \<and> in_board q \<and> \<not> wall_blocks H V cur d} - snd qv)"
proof (induction ds arbitrary: qv)
  case Nil
  show ?case by simp
next
  case (Cons d ds)
  have s: "snd (visit H V cur qv d) =
      snd qv \<union> {q. q = shift cur d \<and> in_board q \<and> \<not> wall_blocks H V cur d}"
    by (auto simp: visit_def Let_def)
  have f: "set (fst (visit H V cur qv d)) =
      set (fst qv) \<union> ({q. q = shift cur d \<and> in_board q \<and> \<not> wall_blocks H V cur d} - snd qv)"
    by (auto simp: visit_def Let_def)
  show ?case
    unfolding foldl_Cons Cons.IH s f by auto
qed

lemma expand_snd: "snd (expand H V cur qv) = snd qv \<union> {q. free_step H V cur q}"
  unfolding expand_def foldl_visit_snd free_step_directions by simp

lemma expand_fst:
  "set (fst (expand H V cur qv)) = set (fst qv) \<union> ({q. free_step H V cur q} - snd qv)"
  unfolding expand_def foldl_visit_fst free_step_directions by simp

lemma bfs_True:
  assumes "bfs goal H V queue visited = Some True"
    and "\<forall>q\<in>set queue. walk H V start q"
  shows "\<exists>g. walk H V start g \<and> goal g = Some True"
  using assms
proof (induction goal H V queue visited rule: bfs.induct)
  case (1 goal H V visited)
  then show ?case by simp
next
  case (2 goal H V cur queue visited)
  have cur: "walk H V start cur"
    using "2.prems"(2) by simp
  consider (n) "goal cur = None" | (t) "goal cur = Some True" | (f) "goal cur = Some False"
    by (cases "goal cur") auto
  then show ?case
  proof cases
    case n
    with "2.prems"(1) show ?thesis by simp
  next
    case t
    with cur show ?thesis by blast
  next
    case f
    have q: "\<forall>q\<in>set (fst (expand H V cur (queue, visited))). walk H V start q"
    proof
      fix q assume "q \<in> set (fst (expand H V cur (queue, visited)))"
      then have "q \<in> set queue \<or> free_step H V cur q"
        by (simp add: expand_fst) blast
      then show "walk H V start q"
        using "2.prems"(2) cur walk_step [of H V start cur q] by auto
    qed
    have r: "bfs goal H V (fst (expand H V cur (queue, visited)))
               (snd (expand H V cur (queue, visited))) = Some True"
      using "2.prems"(1) f by simp
    show ?thesis
      using "2.IH" [OF f refl r q] .
  qed
qed

lemma bfs_total:
  assumes "\<forall>p. goal p \<noteq> None"
  shows "bfs goal H V queue visited \<noteq> None"
  using assms
proof (induction goal H V queue visited rule: bfs.induct)
  case (1 goal H V visited)
  show ?case by simp
next
  case (2 goal H V cur queue visited)
  consider (n) "goal cur = None" | (t) "goal cur = Some True" | (f) "goal cur = Some False"
    by (cases "goal cur") auto
  then show ?case
  proof cases
    case n
    with "2.prems" show ?thesis by blast
  next
    case t
    then show ?thesis by simp
  next
    case f
    with "2.IH" [OF f refl "2.prems"] show ?thesis by simp
  qed
qed

lemma walk_closed:
  assumes "walk H V start q" and "start \<in> C"
    and "\<forall>p\<in>C. \<forall>q. free_step H V p q \<longrightarrow> q \<in> C"
  shows "q \<in> C"
  using assms by (induction rule: walk.induct) blast+

lemma bfs_False:
  assumes "bfs goal H V queue visited = Some False"
    and "set queue \<subseteq> visited"
    and "\<forall>p\<in>visited - set queue. goal p = Some False \<and> (\<forall>q. free_step H V p q \<longrightarrow> q \<in> visited)"
  shows "\<exists>C. visited \<subseteq> C \<and> (\<forall>p\<in>C. goal p = Some False \<and> (\<forall>q. free_step H V p q \<longrightarrow> q \<in> C))"
  using assms
proof (induction goal H V queue visited rule: bfs.induct)
  case (1 goal H V visited)
  have "visited \<subseteq> visited \<and>
      (\<forall>p\<in>visited. goal p = Some False \<and> (\<forall>q. free_step H V p q \<longrightarrow> q \<in> visited))"
    using "1.prems"(3) by simp
  then show ?case by (rule exI)
next
  case (2 goal H V cur queue visited)
  let ?q = "fst (expand H V cur (queue, visited))"
  let ?v = "snd (expand H V cur (queue, visited))"
  have v: "?v = visited \<union> {q. free_step H V cur q}"
    by (simp add: expand_snd)
  have q: "set ?q = set queue \<union> ({q. free_step H V cur q} - visited)"
    by (simp add: expand_fst)
  consider (n) "goal cur = None" | (t) "goal cur = Some True" | (f) "goal cur = Some False"
    by (cases "goal cur") auto
  then show ?case
  proof cases
    case n
    with "2.prems"(1) show ?thesis by simp
  next
    case t
    with "2.prems"(1) show ?thesis by simp
  next
    case f
    have r: "bfs goal H V ?q ?v = Some False"
      using "2.prems"(1) f by simp
    have sub: "set ?q \<subseteq> ?v"
      unfolding v q using "2.prems"(2) by auto
    have inv: "\<forall>p\<in>?v - set ?q. goal p = Some False \<and> (\<forall>q. free_step H V p q \<longrightarrow> q \<in> ?v)"
    proof
      fix p assume "p \<in> ?v - set ?q"
      then have pv: "p \<in> visited" and pq: "p \<notin> set queue"
        unfolding v q by blast+
      show "goal p = Some False \<and> (\<forall>q. free_step H V p q \<longrightarrow> q \<in> ?v)"
      proof (cases "p = cur")
        case True
        then show ?thesis unfolding v using f by simp
      next
        case False
        then have "p \<in> visited - set (cur # queue)"
          using pv pq by simp
        then have "goal p = Some False \<and> (\<forall>q. free_step H V p q \<longrightarrow> q \<in> visited)"
          using "2.prems"(3) by blast
        then show ?thesis unfolding v by blast
      qed
    qed
    obtain C where C: "?v \<subseteq> C"
        "\<forall>p\<in>C. goal p = Some False \<and> (\<forall>q. free_step H V p q \<longrightarrow> q \<in> C)"
      using "2.IH" [OF f refl r sub inv] by blast
    have "visited \<subseteq> C"
      using C(1) unfolding v by blast
    with C(2) show ?thesis by blast
  qed
qed

lemma bfs_start:
  assumes "\<forall>p. goal p \<noteq> None"
  shows "bfs goal H V [start] {start} = Some (\<exists>g. walk H V start g \<and> goal g = Some True)"
proof -
  consider (n) "bfs goal H V [start] {start} = None"
    | (t) "bfs goal H V [start] {start} = Some True"
    | (f) "bfs goal H V [start] {start} = Some False"
    by (cases "bfs goal H V [start] {start}") auto
  then show ?thesis
  proof cases
    case n
    with bfs_total [OF assms] show ?thesis by blast
  next
    case t
    have "\<forall>q\<in>set [start]. walk H V start q"
      by (simp add: walk_here)
    then have "\<exists>g. walk H V start g \<and> goal g = Some True"
      by (rule bfs_True [OF t])
    with t show ?thesis by simp
  next
    case f
    have "\<exists>C. {start} \<subseteq> C \<and> (\<forall>p\<in>C. goal p = Some False \<and> (\<forall>q. free_step H V p q \<longrightarrow> q \<in> C))"
      by (rule bfs_False [OF f]) simp_all
    then obtain C where C: "start \<in> C"
        "\<forall>p\<in>C. goal p = Some False \<and> (\<forall>q. free_step H V p q \<longrightarrow> q \<in> C)"
      by blast
    have "\<not> (\<exists>g. walk H V start g \<and> goal g = Some True)"
    proof
      assume "\<exists>g. walk H V start g \<and> goal g = Some True"
      then obtain g where g: "walk H V start g" "goal g = Some True" by blast
      have "\<forall>p\<in>C. \<forall>q. free_step H V p q \<longrightarrow> q \<in> C"
        using C(2) by blast
      then have "g \<in> C"
        by (rule walk_closed [OF g(1) C(1)])
      with C(2) g(2) show False by auto
    qed
    with f show ?thesis by simp
  qed
qed

lemma at_goal_goal_cell:
  assumes "i < length (win_rows s)" "i < length (win_cols s)"
  shows "at_goal s i p = Some (goal_cell s i p)"
  using assms by (simp add: at_goal_def goal_cell_def)

lemma find_path_to_goal_has_path:
  assumes "i < length (player_positions s)" "i < length (win_rows s)" "i < length (win_cols s)"
  shows "find_path_to_goal s i (Some H) (Some V) = Some (has_path s H V i)"
proof -
  have total: "\<forall>p. at_goal s i p \<noteq> None"
    using assms by (simp add: at_goal_goal_cell)
  have "bfs (at_goal s i) H V [player_positions s ! i] {player_positions s ! i}
          = Some (\<exists>g. walk H V (player_positions s ! i) g \<and> at_goal s i g = Some True)"
    by (rule bfs_start [OF total])
  then show ?thesis
    using assms by (simp add: find_path_to_goal_def has_path_def at_goal_goal_cell)
qed

section \<open>The effect of the methods\<close>

lemma next_turn_fields:
  assumes "next_turn s = Some s'"
  shows "num_players s' = num_players s \<and> player_positions s' = player_positions s \<and>
         win_rows s' = win_rows s \<and> win_cols s' = win_cols s \<and>
         walls_remaining s' = walls_remaining s \<and> player_walls s' = player_walls s \<and>
         horizontal_walls s' = horizontal_walls s \<and> vertical_walls s' = vertical_walls s \<and>
         game_over s' = game_over s \<and> winner s' = winner s \<and>
         current_player s' =
           (if game_over s then current_player s else (current_player s + 1) mod num_players s) \<and>
         (\<not> game_over s \<longrightarrow> 0 < num_players s)"
proof (cases "game_over s")
  case True
  with assms show ?thesis by (simp add: next_turn_def)
next
  case False
  with assms have n: "num_players s \<noteq> 0"
    by (auto simp: next_turn_def split: if_splits)
  from assms False n show ?thesis
    by (auto simp: next_turn_def Let_def split: option.splits)
qed

lemma next_turn_defined:
  assumes "0 < num_players s" "length (player_positions s) = num_players s"
  shows "next_turn s \<noteq> None"
proof -
  have "\<not> num_players s \<le> Suc (current_player s) mod num_players s"
    using assms(1) by (simp add: not_le)
  then show ?thesis
    using assms by (simp add: next_turn_def Let_def get_possible_moves_def)
qed

lemma side_jump_free:
  "p \<in> set (side_jump s new side) \<Longrightarrow> p \<notin> set (player_positions s)"
  by (auto simp: side_jump_def Let_def split: if_splits)

lemma moves_in_direction_free:
  "p \<in> set (moves_in_direction s pos d) \<Longrightarrow> p \<notin> set (player_positions s)"
  by (auto simp: moves_in_direction_def Let_def split: if_splits dest: side_jump_free)

lemma get_possible_moves_free:
  assumes "get_possible_moves s = Some pm" "p \<in> set pm"
  shows "p \<notin> set (player_positions s)"
  using assms
  by (auto simp: get_possible_moves_def split: if_splits dest: moves_in_direction_free)

lemma get_possible_moves_Some:
  "current_player s < length (player_positions s) \<Longrightarrow> \<exists>pm. get_possible_moves s = Some pm"
  by (simp add: get_possible_moves_def)

lemma at_goal_positions [simp]:
  "at_goal (s\<lparr>player_positions := ps\<rparr>) i p = at_goal s i p"
  by (simp add: at_goal_def)

lemma move_player_rejected:
  assumes "move_player s r c = Some (False, s')"
  shows "s' = s\<lparr>message := Invalid_move\<rparr> \<and>
         (\<exists>pm. get_possible_moves s = Some pm \<and> (r, c) \<notin> set pm)"
proof -
  obtain pm where pm: "get_possible_moves s = Some pm"
    using assms by (auto simp: move_player_def split: option.splits)
  show ?thesis
  proof (cases "(r, c) \<in> set pm")
    case True
    with assms pm have False
      by (auto simp: move_player_def Let_def split: option.splits bool.splits)
    then show ?thesis ..
  next
    case False
    with assms pm show ?thesis
      by (simp add: move_player_def)
  qed
qed

lemma move_player_accepted:
  assumes "move_player s r c = Some (True, s')"
  shows "(\<exists>pm. get_possible_moves s = Some pm \<and> (r, c) \<in> set pm) \<and>
         player_positions s' = (player_positions s)[current_player s := (r, c)] \<and>
         num_players s' = num_players s \<and> win_rows s' = win_rows s \<and>
         win_cols s' = win_cols s \<and> walls_remaining s' = walls_remaining s \<and>
         player_walls s' = player_walls s \<and> horizontal_walls s' = horizontal_walls s \<and>
         vertical_walls s' = vertical_walls s \<and>
         ((at_goal s (current_player s) (r, c) = Some True \<and> game_over s' \<and>
           winner s' = Some (current_player s) \<and> current_player s' = current_player s) \<or>
          (at_goal s (current_player s) (r, c) = Some False \<and> game_over s' = game_over s \<and>
           winner s' = winner s \<and>
           current_player s' =
             (if game_over s then current_player s
              else (current_player s + 1) mod num_players s) \<and>
           (\<not> game_over s \<longrightarrow> 0 < num_players s)))"
proof -
  obtain pm where pm: "get_possible_moves s = Some pm"
    using assms by (auto simp: move_player_def split: option.splits)
  have mem: "(r, c) \<in> set pm"
    using assms pm by (auto simp: move_player_def split: if_splits)
  let ?s1 = "s\<lparr>player_positions := (player_positions s)[current_player s := (r, c)]\<rparr>"
  consider (n) "at_goal s (current_player s) (r, c) = None"
    | (t) "at_goal s (current_player s) (r, c) = Some True"
    | (f) "at_goal s (current_player s) (r, c) = Some False"
    by (cases "at_goal s (current_player s) (r, c)") auto
  then show ?thesis
  proof cases
    case n
    with assms pm mem show ?thesis
      by (simp add: move_player_def Let_def)
  next
    case t
    with assms pm mem have "s' = ?s1\<lparr>game_over := True, winner := Some (current_player s),
        message := Player_wins (current_player s + 1)\<rparr>"
      by (simp add: move_player_def Let_def)
    with pm mem t show ?thesis by simp
  next
    case f
    with assms pm mem have nt: "next_turn ?s1 = Some s'"
      by (simp add: move_player_def Let_def split: option.splits)
    from next_turn_fields [OF nt] pm mem f show ?thesis by simp
  qed
qed

lemma move_player_defined:
  assumes "0 < num_players s" "current_player s < num_players s"
    "length (player_positions s) = num_players s"
    "length (win_rows s) = num_players s" "length (win_cols s) = num_players s"
  shows "move_player s r c \<noteq> None"
proof -
  let ?s1 = "s\<lparr>player_positions := (player_positions s)[current_player s := (r, c)]\<rparr>"
  obtain pm where pm: "get_possible_moves s = Some pm"
    using assms by (auto simp: get_possible_moves_def)
  have g: "at_goal s (current_player s) (r, c) \<noteq> None"
    using assms by (auto simp: at_goal_def)
  have nt: "next_turn ?s1 \<noteq> None"
    by (rule next_turn_defined) (use assms in simp_all)
  show ?thesis
    using pm g nt by (auto simp: move_player_def Let_def split: option.splits bool.splits)
qed

lemma on_goal_goal_cell:
  assumes "i < length (player_positions s)" "i < length (win_rows s)" "i < length (win_cols s)"
  shows "on_goal s i = Some (goal_cell s i (player_positions s ! i))"
  using assms by (simp add: on_goal_def at_goal_goal_cell)

lemma all_reach_iff:
  assumes "\<forall>i\<in>set ps. i < length (player_positions s) \<and> i < length (win_rows s) \<and>
             i < length (win_cols s)"
  shows "all_reach s H V ps =
           Some (\<forall>i\<in>set ps. goal_cell s i (player_positions s ! i) \<or> has_path s H V i)"
  using assms
proof (induction ps)
  case Nil
  show ?case by simp
next
  case (Cons i ps)
  have i: "i < length (player_positions s)" "i < length (win_rows s)" "i < length (win_cols s)"
    using Cons.prems by simp_all
  have IH: "all_reach s H V ps =
      Some (\<forall>i\<in>set ps. goal_cell s i (player_positions s ! i) \<or> has_path s H V i)"
    using Cons by simp
  show ?case
    by (simp add: on_goal_goal_cell [OF i] find_path_to_goal_has_path [OF i] IH
          split: bool.splits)
qed

lemma is_valid_wall_placement_paths:
  assumes "length (player_positions s) = num_players s" "length (win_rows s) = num_players s"
    "length (win_cols s) = num_players s"
    and "is_valid_wall_placement s r c wall_type = Some True"
    and "i < num_players s"
  shows "goal_cell s i (player_positions s ! i) \<or>
         has_path s (test_walls_h s r c wall_type) (test_walls_v s r c wall_type) i"
proof -
  have "all_reach s (test_walls_h s r c wall_type) (test_walls_v s r c wall_type)
          [0..<num_players s] = Some True"
    using assms(4) by (simp add: is_valid_wall_placement_def split: if_splits)
  moreover have "\<forall>i\<in>set [0..<num_players s]. i < length (player_positions s) \<and>
      i < length (win_rows s) \<and> i < length (win_cols s)"
    using assms(1-3) by simp
  ultimately have "\<forall>i\<in>set [0..<num_players s]. goal_cell s i (player_positions s ! i) \<or>
      has_path s (test_walls_h s r c wall_type) (test_walls_v s r c wall_type) i"
    by (simp add: all_reach_iff)
  with assms(5) show ?thesis by simp
qed

lemma is_valid_wall_placement_stages:
  "is_valid_wall_placement s r c wall_type =
     (if \<not> anchor_in_bounds r c then Some False
      else if would_overlap s r c wall_type then Some False
      else if would_cross s r c wall_type then Some False
      else all_reach s (test_walls_h s r c wall_type) (test_walls_v s r c wall_type)
             [0..<num_players s])"
  by (simp add: is_valid_wall_placement_def anchor_in_bounds_def would_overlap_def
        would_cross_def)

lemma is_valid_wall_placement_defined:
  assumes "length (player_positions s) = num_players s" "length (win_rows s) = num_players s"
    "length (win_cols s) = num_players s"
  shows "is_valid_wall_placement s r c wall_type \<noteq> None"
proof -
  have "\<forall>i\<in>set [0..<num_players s]. i < length (player_positions s) \<and>
      i < length (win_rows s) \<and> i < length (win_cols s)"
    using assms by simp
  then have "all_reach s (test_walls_h s r c wall_type) (test_walls_v s r c wall_type)
          [0..<num_players s] \<noteq> None"
    by (simp add: all_reach_iff)
  then show ?thesis
    by (auto simp: is_valid_wall_placement_stages)
qed

lemma place_wall_rejected:
  assumes "place_wall s r c wall_type = Some (False, s')"
  shows "(s' = s\<lparr>message := No_walls_remaining\<rparr> \<and> walls_remaining s ! current_player s \<le> 0) \<or>
         (s' = s\<lparr>message := Invalid_wall_placement\<rparr> \<and>
          0 < walls_remaining s ! current_player s \<and>
          is_valid_wall_placement s r c wall_type = Some False)"
proof (cases "walls_remaining s ! current_player s \<le> 0")
  case True
  with assms show ?thesis
    by (simp add: place_wall_def split: if_splits)
next
  case False
  consider (n) "is_valid_wall_placement s r c wall_type = None"
    | (t) "is_valid_wall_placement s r c wall_type = Some True"
    | (f) "is_valid_wall_placement s r c wall_type = Some False"
    by (cases "is_valid_wall_placement s r c wall_type") auto
  then show ?thesis
  proof cases
    case n
    with assms False show ?thesis by (simp add: place_wall_def split: if_splits)
  next
    case t
    with assms False have False
      by (simp add: place_wall_def Let_def split: if_splits option.splits)
    then show ?thesis ..
  next
    case f
    with assms False show ?thesis by (simp add: place_wall_def split: if_splits)
  qed
qed

lemma place_wall_accepted:
  assumes "place_wall s r c wall_type = Some (True, s')"
  shows "current_player s < length (walls_remaining s) \<and>
         0 < walls_remaining s ! current_player s \<and>
         is_valid_wall_placement s r c wall_type = Some True \<and>
         (\<exists>placed. player_walls s (current_player s) = Some placed \<and>
            player_walls s' = (player_walls s)(current_player s \<mapsto>
              placed @ [(if wall_type = ''horizontal'' then ''h'' else ''v'', r, c)])) \<and>
         horizontal_walls s' = test_walls_h s r c wall_type \<and>
         vertical_walls s' = test_walls_v s r c wall_type \<and>
         walls_remaining s' = (walls_remaining s)[current_player s :=
            walls_remaining s ! current_player s - 1] \<and>
         num_players s' = num_players s \<and> player_positions s' = player_positions s \<and>
         win_rows s' = win_rows s \<and> win_cols s' = win_cols s \<and>
         game_over s' = game_over s \<and> winner s' = winner s \<and>
         current_player s' =
           (if game_over s then current_player s
            else (current_player s + 1) mod num_players s) \<and>
         (\<not> game_over s \<longrightarrow> 0 < num_players s)"
proof -
  have len: "current_player s < length (walls_remaining s)"
    and pos: "0 < walls_remaining s ! current_player s"
    using assms by (auto simp: place_wall_def split: if_splits)
  have v: "is_valid_wall_placement s r c wall_type = Some True"
    using assms len pos
    by (cases "is_valid_wall_placement s r c wall_type")
      (auto simp: place_wall_def split: if_splits bool.splits)
  obtain placed where placed: "player_walls s (current_player s) = Some placed"
    using assms len pos v
    by (cases "player_walls s (current_player s)") (auto simp: place_wall_def)
  show ?thesis
  proof (cases "wall_type = ''horizontal''")
    case True
    let ?s2 = "s\<lparr>horizontal_walls := insert (r, c + 1) (insert (r, c) (horizontal_walls s)),
        player_walls := (player_walls s)(current_player s \<mapsto> placed @ [(''h'', r, c)]),
        walls_remaining := (walls_remaining s)[current_player s :=
            walls_remaining s ! current_player s - 1]\<rparr>"
    have nt: "next_turn ?s2 = Some s'"
      using assms len pos v placed True
      by (simp add: place_wall_def Let_def split: option.splits)
    from next_turn_fields [OF nt] len pos v placed True show ?thesis
      by (simp add: test_walls_h_def test_walls_v_def)
  next
    case False
    let ?s2 = "s\<lparr>vertical_walls := insert (r + 1, c) (insert (r, c) (vertical_walls s)),
        player_walls := (player_walls s)(current_player s \<mapsto> placed @ [(''v'', r, c)]),
        walls_remaining := (walls_remaining s)[current_player s :=
            walls_remaining s ! current_player s - 1]\<rparr>"
    have nt: "next_turn ?s2 = Some s'"
      using assms len pos v placed False
      by (simp add: place_wall_def Let_def split: option.splits)
    from next_turn_fields [OF nt] len pos v placed False show ?thesis
      by (simp add: test_walls_h_def test_walls_v_def)
  qed
qed

lemma place_wall_defined:
  assumes "well_formed s"
  shows "place_wall s r c wall_type \<noteq> None"
proof -
  have wf: "0 < num_players s" "current_player s < num_players s"
    "length (player_positions s) = num_players s" "length (win_rows s) = num_players s"
    "length (win_cols s) = num_players s" "length (walls_remaining s) = num_players s"
    using assms by (simp_all add: well_formed_def)
  have len: "\<not> length (walls_remaining s) \<le> current_player s"
    using wf by simp
  obtain placed where placed: "player_walls s (current_player s) = Some placed"
    using assms by (auto simp: well_formed_def)
  have "is_valid_wall_placement s r c wall_type \<noteq> None"
    by (rule is_valid_wall_placement_defined) (use wf in simp_all)
  then obtain b where b: "is_valid_wall_placement s r c wall_type = Some b"
    by blast
  show ?thesis
  proof (cases "walls_remaining s ! current_player s \<le> 0")
    case True
    with len show ?thesis by (simp add: place_wall_def)
  next
    case pos: False
    show ?thesis
    proof (cases b)
      case False
      with len pos b show ?thesis by (simp add: place_wall_def)
    next
      case True
      show ?thesis
      proof (cases "wall_type = ''horizontal''")
        case h: True
        let ?s2 = "s\<lparr>horizontal_walls := insert (r, c + 1) (insert (r, c) (horizontal_walls s)),
          player_walls := (player_walls s)(current_player s \<mapsto> placed @ [(''h'', r, c)]),
          walls_remaining := (walls_remaining s)[current_player s :=
              walls_remaining s ! current_player s - 1]\<rparr>"
        have "next_turn ?s2 \<noteq> None"
          by (rule next_turn_defined) (use wf in simp_all)
        then obtain s3 where "next_turn ?s2 = Some s3" by blast
        with len pos b True h placed show ?thesis
          by (simp add: place_wall_def Let_def)
      next
        case v: False
        let ?s2 = "s\<lparr>vertical_walls := insert (r + 1, c) (insert (r, c) (vertical_walls s)),
          player_walls := (player_walls s)(current_player s \<mapsto> placed @ [(''v'', r, c)]),
          walls_remaining := (walls_remaining s)[current_player s :=
              walls_remaining s ! current_player s - 1]\<rparr>"
        have "next_turn ?s2 \<noteq> None"
          by (rule next_turn_defined) (use wf in simp_all)
        then obtain s3 where "next_turn ?s2 = Some s3" by blast
        with len pos b True v placed show ?thesis
          by (simp add: place_wall_def Let_def)
      qed
    qed
  qed
qed

lemma initialize_game_fields:
  assumes "initialize_game n = Some s"
  shows "num_players s = n \<and>
         player_positions s = take n [(8, 4), (0, 4), (4, 0), (4, 8)] \<and>
         win_rows s = take n [Some 0, Some 8, None, None] \<and>
         win_cols s = take n [None, None, Some 8, Some 0] \<and>
         walls_remaining s = take n [10, 10, 5, 5] \<and>
         player_walls s = (\<lambda>i. if i < n then Some [] else None) \<and>
         horizontal_walls s = {} \<and> vertical_walls s = {} \<and>
         current_player s = 0 \<and> \<not> game_over s \<and> winner s = None"
  using assms
  by (auto simp: initialize_game_def Let_def BOARD_SIZE_def split: option.splits)

lemma initialize_game_defined:
  assumes "0 < n"
  shows "initialize_game n \<noteq> None"
  using assms
  by (auto simp: initialize_game_def Let_def get_possible_moves_def split: option.splits)

lemma initialize_game_well_formed:
  assumes "0 < n" "n \<le> 4" "initialize_game n = Some s"
  shows "well_formed s"
  using assms(1,2) initialize_game_fields [OF assms(3)]
  by (simp add: well_formed_def)

lemma move_player_well_formed:
  assumes "well_formed s" "move_player s r c = Some (ok, s')"
  shows "well_formed s'"
proof (cases ok)
  case True
  with assms(2) have "move_player s r c = Some (True, s')" by simp
  from move_player_accepted [OF this] assms(1) show ?thesis
    by (auto simp: well_formed_def)
next
  case False
  with assms(2) have "move_player s r c = Some (False, s')" by simp
  from move_player_rejected [OF this] assms(1) show ?thesis
    by (auto simp: well_formed_def)
qed

lemma place_wall_well_formed:
  assumes "well_formed s" "place_wall s r c wall_type = Some (ok, s')"
  shows "well_formed s'"
proof (cases ok)
  case True
  with assms(2) have "place_wall s r c wall_type = Some (True, s')" by simp
  from place_wall_accepted [OF this] assms(1) show ?thesis
    by (auto simp: well_formed_def)
next
  case False
  with assms(2) have "place_wall s r c wall_type = Some (False, s')" by simp
  from place_wall_rejected [OF this] assms(1) show ?thesis
    by (auto simp: well_formed_def)
qed

lemma reachable_well_formed: "reachable s \<Longrightarrow> well_formed s"
proof (induction rule: reachable.induct)
  case (reachable_init n s)
  then show ?case by (rule initialize_game_well_formed)
next
  case (reachable_move s r c ok s')
  then show ?case by (auto intro: move_player_well_formed)
next
  case (reachable_wall s r c wall_type ok s')
  then show ?case by (auto intro: place_wall_well_formed)
qed

lemma move_player_total:
  assumes "well_formed s"
  shows "move_player s r c \<noteq> None"
  by (rule move_player_defined) (use assms in \<open>simp_all add: well_formed_def\<close>)

lemma initialize_game_2: "initialize_game 2 = Some two_player_start"
  by (simp add: initialize_game_def two_player_start_def get_possible_moves_def Let_def
        BOARD_SIZE_def directions_def moves_in_direction_def shift_def in_board_def
        wall_blocks_def)

lemma find_path_to_goal_walls:
  assumes "i < length (player_positions s)" "i < length (win_rows s)" "i < length (win_cols s)"
  shows "find_path_to_goal s i th tv =
           Some (has_path s (case th of None \<Rightarrow> horizontal_walls s | Some h \<Rightarrow> h)
                   (case tv of None \<Rightarrow> vertical_walls s | Some v \<Rightarrow> v) i)"
proof -
  let ?H = "case th of None \<Rightarrow> horizontal_walls s | Some h \<Rightarrow> h"
  let ?V = "case tv of None \<Rightarrow> vertical_walls s | Some v \<Rightarrow> v"
  have "find_path_to_goal s i th tv = find_path_to_goal s i (Some ?H) (Some ?V)"
    by (simp add: find_path_to_goal_def)
  then show ?thesis
    by (simp add: find_path_to_goal_has_path [OF assms])
qed

section \<open>Invariants of play\<close>

lemma place_wall_accepted_paths:
  assumes wf: "well_formed s" and acc: "place_wall s r c wall_type = Some (True, s')"
    and i: "i < num_players s'"
  shows "goal_cell s' i (player_positions s' ! i) \<or>
         has_path s' (horizontal_walls s') (vertical_walls s') i"
proof -
  note a = place_wall_accepted [OF acc]
  have len: "length (player_positions s) = num_players s" "length (win_rows s) = num_players s"
    "length (win_cols s) = num_players s"
    using wf by (simp_all add: well_formed_def)
  have v: "is_valid_wall_placement s r c wall_type = Some True"
    using a by simp
  have i': "i < num_players s"
    using a i by simp
  have "goal_cell s i (player_positions s ! i) \<or>
      has_path s (test_walls_h s r c wall_type) (test_walls_v s r c wall_type) i"
    by (rule is_valid_wall_placement_paths [OF len v i'])
  moreover have "goal_cell s' i (player_positions s' ! i) = goal_cell s i (player_positions s ! i)"
    using a by (simp add: goal_cell_def)
  moreover have "has_path s' (horizontal_walls s') (vertical_walls s') i =
      has_path s (test_walls_h s r c wall_type) (test_walls_v s r c wall_type) i"
    using a by (simp add: has_path_def goal_cell_def)
  ultimately show ?thesis by simp
qed

lemma place_wall_blocking_rejected:
  assumes wf: "well_formed s" and i: "i < num_players s"
    and ng: "\<not> goal_cell s i (player_positions s ! i)"
    and np: "\<not> has_path s (test_walls_h s r c wall_type) (test_walls_v s r c wall_type) i"
  shows "\<exists>s'. place_wall s r c wall_type = Some (False, s')"
proof -
  obtain ok s' where res: "place_wall s r c wall_type = Some (ok, s')"
    using place_wall_defined [OF wf, of r c wall_type] by (cases "place_wall s r c wall_type") auto
  have len: "length (player_positions s) = num_players s" "length (win_rows s) = num_players s"
    "length (win_cols s) = num_players s"
    using wf by (simp_all add: well_formed_def)
  have "\<not> ok"
  proof
    assume ok
    with res have acc: "place_wall s r c wall_type = Some (True, s')" by simp
    have v: "is_valid_wall_placement s r c wall_type = Some True"
      using place_wall_accepted [OF acc] by simp
    from is_valid_wall_placement_paths [OF len v i] ng np show False by simp
  qed
  with res show ?thesis by auto
qed

lemma move_player_distinct:
  assumes "distinct (player_positions s)" "move_player s r c = Some (ok, s')"
  shows "distinct (player_positions s')"
proof (cases ok)
  case True
  with assms(2) have acc: "move_player s r c = Some (True, s')" by simp
  note a = move_player_accepted [OF acc]
  then obtain pm where pm: "get_possible_moves s = Some pm" "(r, c) \<in> set pm" by blast
  have "(r, c) \<notin> set (player_positions s)"
    by (rule get_possible_moves_free [OF pm])
  then have "distinct ((player_positions s)[current_player s := (r, c)])"
    using assms(1) by (simp add: distinct_list_update)
  with a show ?thesis by simp
next
  case False
  with assms(2) have "move_player s r c = Some (False, s')" by simp
  from move_player_rejected [OF this] assms(1) show ?thesis by simp
qed

lemma place_wall_positions:
  assumes "place_wall s r c wall_type = Some (ok, s')"
  shows "player_positions s' = player_positions s"
proof (cases ok)
  case True
  with assms have "place_wall s r c wall_type = Some (True, s')" by simp
  from place_wall_accepted [OF this] show ?thesis by simp
next
  case False
  with assms have "place_wall s r c wall_type = Some (False, s')" by simp
  from place_wall_rejected [OF this] show ?thesis by auto
qed

lemma take_distinct_start:
  "n \<le> 4 \<Longrightarrow> distinct (take n [(8::int, 4::int), (0, 4), (4, 0), (4, 8)])"
  by (rule distinct_take) simp

lemma reachable_distinct: "reachable s \<Longrightarrow> distinct (player_positions s)"
proof (induction rule: reachable.induct)
  case (reachable_init n s)
  from initialize_game_fields [OF reachable_init(3)] take_distinct_start [OF reachable_init(2)]
  show ?case by simp
next
  case (reachable_move s r c ok s')
  then show ?case by (auto intro: move_player_distinct)
next
  case (reachable_wall s r c wall_type ok s')
  then show ?case by (simp add: place_wall_positions)
qed

lemma initialize_game_accounted:
  assumes "n \<le> 4" "initialize_game n = Some s"
  shows "walls_accounted s"
proof -
  note f = initialize_game_fields [OF assms(2)]
  have "\<And>i. i < n \<Longrightarrow> take n [10, 10, 5, 5::int] ! i = [10, 10, 5, 5] ! i"
    by simp
  moreover have "\<And>i. i < n \<Longrightarrow> (0::int) \<le> [10, 10, 5, 5] ! i"
  proof -
    fix i assume "i < n"
    with assms(1) have "i < 4" by simp
    then have "i = 0 \<or> i = 1 \<or> i = 2 \<or> i = 3" by arith
    then show "(0::int) \<le> [10, 10, 5, 5] ! i"
      by (auto simp: nth_Cons')
  qed
  ultimately show ?thesis
    using f by (simp add: walls_accounted_def)
qed

lemma move_player_accounted:
  assumes "walls_accounted s" "move_player s r c = Some (ok, s')"
  shows "walls_accounted s'"
proof (cases ok)
  case True
  with assms(2) have "move_player s r c = Some (True, s')" by simp
  from move_player_accepted [OF this] assms(1) show ?thesis
    by (simp add: walls_accounted_def)
next
  case False
  with assms(2) have "move_player s r c = Some (False, s')" by simp
  from move_player_rejected [OF this] assms(1) show ?thesis
    by (simp add: walls_accounted_def)
qed

lemma place_wall_accounted:
  assumes "walls_accounted s" "place_wall s r c wall_type = Some (ok, s')"
  shows "walls_accounted s'"
proof (cases ok)
  case False
  with assms(2) have "place_wall s r c wall_type = Some (False, s')" by simp
  from place_wall_rejected [OF this] assms(1) show ?thesis
    by (auto simp: walls_accounted_def)
next
  case True
  with assms(2) have acc: "place_wall s r c wall_type = Some (True, s')" by simp
  note a = place_wall_accepted [OF acc]
  from a obtain placed where placed: "player_walls s (current_player s) = Some placed"
    "player_walls s' = (player_walls s)(current_player s \<mapsto>
        placed @ [(if wall_type = ''horizontal'' then ''h'' else ''v'', r, c)])"
    by blast
  have wr: "walls_remaining s' = (walls_remaining s)[current_player s :=
      walls_remaining s ! current_player s - 1]"
    and n: "num_players s' = num_players s"
    and len: "current_player s < length (walls_remaining s)"
    and pos: "0 < walls_remaining s ! current_player s"
    using a by simp_all
  show ?thesis
    unfolding walls_accounted_def
  proof (intro allI impI)
    fix i assume "i < num_players s'"
    then have i: "i < num_players s" using n by simp
    from assms(1) i obtain old where old: "player_walls s i = Some old"
      "0 \<le> walls_remaining s ! i"
      "walls_remaining s ! i = [10, 10, 5, 5] ! i - int (length old)"
      unfolding walls_accounted_def by blast
    show "\<exists>placed. player_walls s' i = Some placed \<and> 0 \<le> walls_remaining s' ! i \<and>
        walls_remaining s' ! i = [10, 10, 5, 5] ! i - int (length placed)"
    proof (cases "i = current_player s")
      case True
      with old placed have "old = placed" by simp
      with True old placed wr len pos show ?thesis by simp
    next
      case False
      with old placed wr show ?thesis by simp
    qed
  qed
qed

lemma reachable_accounted: "reachable s \<Longrightarrow> walls_accounted s"
proof (induction rule: reachable.induct)
  case (reachable_init n s)
  then show ?case by (simp add: initialize_game_accounted)
next
  case (reachable_move s r c ok s')
  then show ?case by (auto intro: move_player_accounted)
next
  case (reachable_wall s r c wall_type ok s')
  then show ?case by (auto intro: place_wall_accounted)
qed

section \<open>The jump rule\<close>

lemma side_jump_same:
  assumes "new \<in> set (player_positions s)"
  shows "side_jump s new (0, 0) = []"
proof -
  have "shift new (0, 0) = new"
    by (simp add: shift_def)
  with assms show ?thesis
    by (simp add: side_jump_def)
qed

lemma side_jump_beyond:
  assumes "d \<in> set directions" "in_board new" "\<not> in_board (shift new d)"
  shows "side_jump s new (2 * fst d, 2 * snd d) = []"
proof -
  have "\<not> in_board (shift new (2 * fst d, 2 * snd d))"
    using assms by (auto simp: directions_def in_board_def shift_def)
  then show ?thesis
    by (simp add: side_jump_def)
qed

lemma side_steps_up: "side_steps (-1, 0) = [(0, 0), (-2, 0)]"
  by (simp add: side_steps_def)

lemma side_steps_down: "side_steps (1, 0) = [(2, 0), (0, 0)]"
  by (simp add: side_steps_def)

lemma side_steps_left: "side_steps (0, -1) = [(0, 0), (0, -2)]"
  by (simp add: side_steps_def)

lemma side_steps_right: "side_steps (0, 1) = [(0, 2), (0, 0)]"
  by (simp add: side_steps_def)

lemma side_jumps_empty:
  assumes "d \<in> set directions" "in_board new" "\<not> in_board (shift new d)"
    "new \<in> set (player_positions s)"
  shows "concat (map (side_jump s new) (side_steps d)) = []"
proof -
  note same = side_jump_same [OF assms(4)]
  consider (up) "d = (-1, 0)" | (down) "d = (1, 0)" | (left) "d = (0, -1)" | (right) "d = (0, 1)"
    using assms(1) by (auto simp: directions_def)
  then show ?thesis
  proof cases
    case up
    with side_jump_beyond [OF assms(1-3), of s] same show ?thesis
      by (simp add: side_steps_up)
  next
    case down
    with side_jump_beyond [OF assms(1-3), of s] same show ?thesis
      by (simp add: side_steps_down)
  next
    case left
    with side_jump_beyond [OF assms(1-3), of s] same show ?thesis
      by (simp add: side_steps_left)
  next
    case right
    with side_jump_beyond [OF assms(1-3), of s] same show ?thesis
      by (simp add: side_steps_right)
  qed
qed

lemma moves_in_direction_axis:
  assumes "d \<in> set directions"
  shows "moves_in_direction s p d =
     (if \<not> in_board (shift p d) \<or>
         wall_blocks (horizontal_walls s) (vertical_walls s) p d then []
      else if shift p d \<notin> set (player_positions s) then [shift p d]
      else if in_board (shift (shift p d) d) \<and>
              \<not> wall_blocks (horizontal_walls s) (vertical_walls s) (shift p d) d \<and>
              shift (shift p d) d \<notin> set (player_positions s)
           then [shift (shift p d) d]
      else [])"
proof (cases "in_board (shift p d) \<and> shift p d \<in> set (player_positions s) \<and>
    \<not> in_board (shift (shift p d) d)")
  case True
  then have "concat (map (side_jump s (shift p d)) (side_steps d)) = []"
    using side_jumps_empty [OF assms, of "shift p d" s] by simp
  with True show ?thesis
    by (simp add: moves_in_direction_def Let_def)
next
  case False
  then show ?thesis
    by (auto simp: moves_in_direction_def Let_def)
qed

lemma get_possible_moves_set:
  assumes "get_possible_moves s = Some pm"
  shows "set pm = (\<Union>d\<in>set directions.
           set (moves_in_direction s (player_positions s ! current_player s) d))"
  using assms by (auto simp: get_possible_moves_def split: if_splits)

lemma double_step_direction:
  assumes "d \<in> set directions" "d' \<in> set directions"
    and "shift (shift p d) d = shift p d' \<or> shift (shift p d) d = shift (shift p d') d'"
  shows "d' = d"
  using assms by (auto simp: directions_def shift_def)

lemma jump_cell_origin:
  assumes d: "d \<in> set directions" and d': "d' \<in> set directions"
    and mem: "shift (shift p d) d \<in> set (moves_in_direction s p d')"
  shows "d' = d"
proof -
  have "shift (shift p d) d = shift p d' \<or> shift (shift p d) d = shift (shift p d') d'"
    using mem unfolding moves_in_direction_axis [OF d'] by (auto split: if_splits)
  then show ?thesis
    by (rule double_step_direction [OF d d'])
qed

section \<open>Games from the opening position\<close>

lemma reachable_start: "reachable two_player_start"
  by (rule reachable_init [of 2]) (simp_all add: initialize_game_2)

lemma board_click_reachable:
  assumes "reachable s" "board_click m t s r c = Some s'"
  shows "reachable s'"
proof (cases "game_over s")
  case True
  with assms show ?thesis by (simp add: board_click_def)
next
  case False
  show ?thesis
  proof (cases m)
    case True
    with False assms(2) obtain ok where
      "place_wall s (max 0 (min r (BOARD_SIZE - 2))) (max 0 (min c (BOARD_SIZE - 2))) t
         = Some (ok, s')"
      by (auto simp: board_click_def Let_def)
    with assms(1) show ?thesis by (rule reachable_wall)
  next
    case m: False
    with False assms(2) obtain ok where "move_player s r c = Some (ok, s')"
      by (auto simp: board_click_def)
    with assms(1) show ?thesis by (rule reachable_move)
  qed
qed

lemma run_clicks_reachable:
  assumes "reachable s" "run_clicks s clicks = Some s'"
  shows "reachable s'"
  using assms
proof (induction clicks arbitrary: s)
  case Nil
  then show ?case by simp
next
  case (Cons click clicks)
  obtain m t r c where click: "click = (m, t, r, c)"
    by (cases click) auto
  from Cons.prems(2) click obtain s1 where s1: "board_click m t s r c = Some s1"
    "run_clicks s1 clicks = Some s'"
    by (auto split: option.splits)
  have "reachable s1"
    by (rule board_click_reachable [OF Cons.prems(1) s1(1)])
  then show ?case
    using s1(2) by (rule Cons.IH)
qed

lemma fence_scenario:
  "(case run_clicks two_player_start fence_clicks of
      None \<Rightarrow> False
    | Some s \<Rightarrow>
        num_players s = 2 \<and> player_positions s = [(8, 4), (0, 4)] \<and>
        win_rows s = [Some 0, Some 8] \<and> win_cols s = [None, None] \<and>
        walls_remaining s = [9, 9] \<and>
        find_path_to_goal s 0 (Some (test_walls_h s 7 5 ''vertical''))
          (Some (test_walls_v s 7 5 ''vertical'')) = Some False)"
  by code_simp

lemma first_wall_accepted:
  "map_option fst (place_wall two_player_start 7 4 ''horizontal'') = Some True"
  by code_simp

lemma approach_scenario:
  "(case run_clicks two_player_start approach_clicks of
      None \<Rightarrow> False
    | Some s \<Rightarrow>
        \<not> game_over s \<and> current_player s = 0 \<and> num_players s = 2 \<and>
        player_positions s = [(1, 4), (0, 3)] \<and>
        win_rows s = [Some 0, Some 8] \<and> win_cols s = [None, None] \<and>
        get_possible_moves s = Some [(0, 4), (2, 4), (1, 3), (1, 5)])"
  by code_simp

lemma winning_scenario:
  "(case run_clicks two_player_start winning_clicks of
      None \<Rightarrow> False
    | Some s \<Rightarrow>
        game_over s \<and> winner s = Some 0 \<and> current_player s = 0 \<and>
        player_positions s = [(0, 4), (0, 3)] \<and>
        vertical_walls s = {} \<and> walls_remaining s = [10, 10] \<and>
        (case move_player s 1 4 of
           None \<Rightarrow> False
         | Some (ok, s') \<Rightarrow> ok \<and> player_positions s' = [(1, 4), (0, 3)] \<and> game_over s') \<and>
        (case place_wall s 0 0 ''vertical'' of
           None \<Rightarrow> False
         | Some (ok, s') \<Rightarrow> ok \<and> vertical_walls s' = {(0, 0), (1, 0)} \<and>
             walls_remaining s' = [9, 10] \<and> current_player s' = 0))"
  by code_simp

lemma edge_scenario:
  "(case run_clicks two_player_start edge_clicks of
      None \<Rightarrow> False
    | Some s \<Rightarrow>
        \<not> game_over s \<and> current_player s = 0 \<and>
        player_positions s = [(1, 4), (0, 4)] \<and>
        horizontal_walls s = {(7, 0), (7, 1)} \<and> vertical_walls s = {} \<and>
        get_possible_moves s = Some [(2, 4), (1, 3), (1, 5)])"
  by code_simp

lemma crossing_example_well_formed: "well_formed crossing_example"
  by (simp add: well_formed_def crossing_example_def two_player_start_def)

lemma crossing_example_valid:
  "is_valid_wall_placement crossing_example 3 4 ''horizontal'' = Some True"
  by code_simp

lemma first_move_accepted: "map_option fst (move_player two_player_start 7 4) = Some True"
  by code_simp

section \<open>The claims\<close>

text \<open>
  C2.  For a player index within the per-player lists and any pair of wall sets (an
  omitted one standing for the live set), \<open>find_path_to_goal\<close> returns, and its result is
  \<open>True\<close> exactly when a sequence of single orthogonal steps, each landing on the board
  and crossing no blocker unit of those sets, leads from the player's cell to a cell on
  the player's goal row or goal column; it is \<open>False\<close> exactly when there is none.
\<close>

theorem find_path_to_goal_correct:
  assumes "player_idx < length (player_positions s)"
    and "player_idx < length (win_rows s)"
    and "player_idx < length (win_cols s)"
  shows "find_path_to_goal s player_idx th tv =
           Some (\<exists>g. walk (case th of None \<Rightarrow> horizontal_walls s | Some h \<Rightarrow> h)
                        (case tv of None \<Rightarrow> vertical_walls s | Some v \<Rightarrow> v)
                        (player_positions s ! player_idx) g \<and>
                      goal_cell s player_idx g)"
  using find_path_to_goal_walls [OF assms] by (simp add: has_path_def)

text \<open>
  On the opening position player 0 reaches row 0 over the empty board, and does not once
  the cell \<open>(8, 4)\<close> is closed off by the units above it, left of it and right of it.
\<close>

theorem find_path_to_goal_correct_witness:
  "(\<exists>g. walk {} {} (8, 4) g \<and> goal_cell two_player_start 0 g) \<and>
   \<not> (\<exists>g. walk {(7, 4)} {(8, 3), (8, 4)} (8, 4) g \<and> goal_cell two_player_start 0 g)"
proof -
  have len: "0 < length (player_positions two_player_start)"
    "0 < length (win_rows two_player_start)" "0 < length (win_cols two_player_start)"
    by (simp_all add: two_player_start_def)
  have pos: "player_positions two_player_start ! 0 = (8, 4)"
    "horizontal_walls two_player_start = {}" "vertical_walls two_player_start = {}"
    by (simp_all add: two_player_start_def)
  have t: "find_path_to_goal two_player_start 0 None None = Some True"
    by code_simp
  have f: "find_path_to_goal two_player_start 0 (Some {(7, 4)}) (Some {(8, 3), (8, 4)})
             = Some False"
    by code_simp
  show ?thesis
    using find_path_to_goal_correct [OF len, of None None]
      find_path_to_goal_correct [OF len, of "Some {(7, 4)}" "Some {(8, 3), (8, 4)}"]
    unfolding t f pos by simp
qed

text \<open>
  C1.  In every reachable state, when \<open>place_wall\<close> accepts a wall, every player of the
  resulting state who is not on the goal row or column has a path of orthogonal steps,
  each on the board and crossing no blocker unit of the resulting wall sets, from the
  player's cell to a goal cell; and when the candidate's two blocker units, added to the
  wall sets, would leave some such player without a path, \<open>place_wall\<close> rejects it.
\<close>

theorem place_wall_never_blocks:
  assumes "reachable s"
  shows "(\<forall>s'. place_wall s r c wall_type = Some (True, s') \<longrightarrow>
            (\<forall>i<num_players s'. \<not> goal_cell s' i (player_positions s' ! i) \<longrightarrow>
               has_path s' (horizontal_walls s') (vertical_walls s') i)) \<and>
         ((\<exists>i<num_players s. \<not> goal_cell s i (player_positions s ! i) \<and>
              \<not> has_path s (test_walls_h s r c wall_type) (test_walls_v s r c wall_type) i) \<longrightarrow>
            (\<exists>s'. place_wall s r c wall_type = Some (False, s')))"
proof -
  have wf: "well_formed s"
    using assms by (rule reachable_well_formed)
  show ?thesis
    using place_wall_accepted_paths [OF wf] place_wall_blocking_rejected [OF wf]
    by blast
qed

text \<open>
  From the opening position the wall at \<open>(7, 4)\<close> is accepted and both players keep a
  path.  After the two walls of \<open>fence_clicks\<close> the vertical wall at \<open>(7, 5)\<close> would leave
  player 0 without one, and it is rejected.
\<close>

theorem place_wall_never_blocks_witness:
  "(\<exists>s'. place_wall two_player_start 7 4 ''horizontal'' = Some (True, s') \<and>
      has_path s' (horizontal_walls s') (vertical_walls s') 0 \<and>
      has_path s' (horizontal_walls s') (vertical_walls s') 1) \<and>
   (\<exists>s s'. run_clicks two_player_start fence_clicks = Some s \<and>
      \<not> has_path s (test_walls_h s 7 5 ''vertical'') (test_walls_v s 7 5 ''vertical'') 0 \<and>
      place_wall s 7 5 ''vertical'' = Some (False, s'))"
proof
  obtain s' where acc: "place_wall two_player_start 7 4 ''horizontal'' = Some (True, s')"
    using first_wall_accepted by (cases "place_wall two_player_start 7 4 ''horizontal''") auto
  note a = place_wall_accepted [OF acc]
  have n: "num_players s' = 2" and pos: "player_positions s' = [(8, 4), (0, 4)]"
    and rows: "win_rows s' = [Some 0, Some 8]" and cols: "win_cols s' = [None, None]"
    using a by (simp_all add: two_player_start_def)
  have "\<forall>i<num_players s'. \<not> goal_cell s' i (player_positions s' ! i) \<longrightarrow>
      has_path s' (horizontal_walls s') (vertical_walls s') i"
    using place_wall_never_blocks [OF reachable_start, of 7 4 "''horizontal''"]
      acc by blast
  then have "has_path s' (horizontal_walls s') (vertical_walls s') 0 \<and>
      has_path s' (horizontal_walls s') (vertical_walls s') 1"
    by (simp add: n pos rows cols goal_cell_def)
  with acc show "\<exists>s'. place_wall two_player_start 7 4 ''horizontal'' = Some (True, s') \<and>
      has_path s' (horizontal_walls s') (vertical_walls s') 0 \<and>
      has_path s' (horizontal_walls s') (vertical_walls s') 1"
    by blast
next
  obtain s where run: "run_clicks two_player_start fence_clicks = Some s"
    and n: "num_players s = 2" and pos: "player_positions s = [(8, 4), (0, 4)]"
    and rows: "win_rows s = [Some 0, Some 8]" and cols: "win_cols s = [None, None]"
    and bfs: "find_path_to_goal s 0 (Some (test_walls_h s 7 5 ''vertical''))
          (Some (test_walls_v s 7 5 ''vertical'')) = Some False"
    using fence_scenario by (cases "run_clicks two_player_start fence_clicks") auto
  have r: "reachable s"
    by (rule run_clicks_reachable [OF reachable_start run])
  have np: "\<not> has_path s (test_walls_h s 7 5 ''vertical'') (test_walls_v s 7 5 ''vertical'') 0"
    using find_path_to_goal_has_path [of 0 s "test_walls_h s 7 5 ''vertical''"
        "test_walls_v s 7 5 ''vertical''"] bfs
    by (simp add: pos rows cols)
  have ng: "\<not> goal_cell s 0 (player_positions s ! 0)"
    by (simp add: goal_cell_def pos rows cols)
  have "\<exists>i<num_players s. \<not> goal_cell s i (player_positions s ! i) \<and>
      \<not> has_path s (test_walls_h s 7 5 ''vertical'') (test_walls_v s 7 5 ''vertical'') i"
    using np ng n by (intro exI [of _ 0]) simp
  then obtain s' where "place_wall s 7 5 ''vertical'' = Some (False, s')"
    using place_wall_never_blocks [OF r, of 7 5 "''vertical''"] by blast
  with run np show "\<exists>s s'. run_clicks two_player_start fence_clicks = Some s \<and>
      \<not> has_path s (test_walls_h s 7 5 ''vertical'') (test_walls_v s 7 5 ''vertical'') 0 \<and>
      place_wall s 7 5 ''vertical'' = Some (False, s')"
    by blast
qed

text \<open>
  C3.  In a reachable state whose game is not over, \<open>move_player\<close> returns \<open>False\<close> with
  the message \<open>Invalid_move\<close>, the state otherwise as it was, exactly when the requested
  cell is not among the possible moves of the current player.  Otherwise it returns
  \<open>True\<close> and the current player stands on the cell; if the cell is on that player's
  goal row or column the game is over with that player as winner, and if not the game
  goes on and the current player becomes \<open>(current_player + 1) mod num_players\<close>.
\<close>

theorem move_player_correct:
  assumes "reachable s" and "\<not> game_over s"
  shows "\<exists>pm. get_possible_moves s = Some pm \<and>
           (if (r, c) \<notin> set pm
            then move_player s r c = Some (False, s\<lparr>message := Invalid_move\<rparr>)
            else \<exists>s'. move_player s r c = Some (True, s') \<and>
                   player_positions s' = (player_positions s)[current_player s := (r, c)] \<and>
                   (if goal_cell s (current_player s) (r, c)
                    then game_over s' \<and> winner s' = Some (current_player s)
                    else \<not> game_over s' \<and>
                         current_player s' = (current_player s + 1) mod num_players s))"
proof -
  have wf: "well_formed s"
    using assms(1) by (rule reachable_well_formed)
  then have len: "current_player s < length (player_positions s)"
    "current_player s < length (win_rows s)" "current_player s < length (win_cols s)"
    by (simp_all add: well_formed_def)
  obtain pm where pm: "get_possible_moves s = Some pm"
    using get_possible_moves_Some [OF len(1)] by blast
  obtain ok s' where res: "move_player s r c = Some (ok, s')"
    using move_player_total [OF wf, of r c] by (cases "move_player s r c") auto
  have g: "at_goal s (current_player s) (r, c) = Some (goal_cell s (current_player s) (r, c))"
    by (rule at_goal_goal_cell [OF len(2,3)])
  show ?thesis
  proof (cases "(r, c) \<in> set pm")
    case False
    have "ok = False"
    proof (rule ccontr)
      assume "ok \<noteq> False"
      with res have "move_player s r c = Some (True, s')" by simp
      from move_player_accepted [OF this] pm False show False by simp
    qed
    with res have rej: "move_player s r c = Some (False, s')" by simp
    from move_player_rejected [OF rej] rej pm False show ?thesis by simp
  next
    case True
    have "ok = True"
    proof (rule ccontr)
      assume "ok \<noteq> True"
      with res have "move_player s r c = Some (False, s')" by simp
      from move_player_rejected [OF this] pm True show False by simp
    qed
    with res have acc: "move_player s r c = Some (True, s')" by simp
    from move_player_accepted [OF acc] g assms(2)
    have "player_positions s' = (player_positions s)[current_player s := (r, c)] \<and>
          (if goal_cell s (current_player s) (r, c)
           then game_over s' \<and> winner s' = Some (current_player s)
           else \<not> game_over s' \<and>
                current_player s' = (current_player s + 1) mod num_players s)"
      by auto
    with acc pm True show ?thesis by auto
  qed
qed

text \<open>
  At the opening position the move to \<open>(0, 0)\<close> is refused and the move to \<open>(7, 4)\<close>
  passes the turn to player 1; after \<open>approach_clicks\<close> the move to \<open>(0, 4)\<close> wins the game
  for player 0.
\<close>

theorem move_player_correct_witness:
  "move_player two_player_start 0 0 = Some (False, two_player_start\<lparr>message := Invalid_move\<rparr>) \<and>
   (\<exists>s'. move_player two_player_start 7 4 = Some (True, s') \<and>
      player_positions s' = [(7, 4), (0, 4)] \<and> \<not> game_over s' \<and> current_player s' = 1) \<and>
   (\<exists>s s'. run_clicks two_player_start approach_clicks = Some s \<and>
      move_player s 0 4 = Some (True, s') \<and> player_positions s' = [(0, 4), (0, 3)] \<and>
      game_over s' \<and> winner s' = Some 0)"
proof (intro conjI)
  have start: "\<not> game_over two_player_start"
    "get_possible_moves two_player_start = Some [(7, 4), (8, 3), (8, 5)]"
    by (simp_all add: two_player_start_def get_possible_moves_def directions_def
        moves_in_direction_def Let_def shift_def in_board_def BOARD_SIZE_def wall_blocks_def)
  show "move_player two_player_start 0 0
      = Some (False, two_player_start\<lparr>message := Invalid_move\<rparr>)"
    using move_player_correct [OF reachable_start start(1), of 0 0] start(2) by simp
  have "\<exists>s'. move_player two_player_start 7 4 = Some (True, s') \<and>
      player_positions s' = (player_positions two_player_start)
        [current_player two_player_start := (7, 4)] \<and>
      (if goal_cell two_player_start (current_player two_player_start) (7, 4)
       then game_over s' \<and> winner s' = Some (current_player two_player_start)
       else \<not> game_over s' \<and>
            current_player s' = (current_player two_player_start + 1) mod
              num_players two_player_start)"
    using move_player_correct [OF reachable_start start(1), of 7 4] start(2) by simp
  then show "\<exists>s'. move_player two_player_start 7 4 = Some (True, s') \<and>
      player_positions s' = [(7, 4), (0, 4)] \<and> \<not> game_over s' \<and> current_player s' = 1"
    by (simp add: two_player_start_def goal_cell_def)
  obtain s where run: "run_clicks two_player_start approach_clicks = Some s"
    and s: "\<not> game_over s" "current_player s = 0" "num_players s = 2"
      "player_positions s = [(1, 4), (0, 3)]" "win_rows s = [Some 0, Some 8]"
      "win_cols s = [None, None]"
      "get_possible_moves s = Some [(0, 4), (2, 4), (1, 3), (1, 5)]"
    using approach_scenario by (cases "run_clicks two_player_start approach_clicks") auto
  have r: "reachable s"
    by (rule run_clicks_reachable [OF reachable_start run])
  have "\<exists>s'. move_player s 0 4 = Some (True, s') \<and>
      player_positions s' = (player_positions s)[current_player s := (0, 4)] \<and>
      (if goal_cell s (current_player s) (0, 4)
       then game_over s' \<and> winner s' = Some (current_player s)
       else \<not> game_over s' \<and> current_player s' = (current_player s + 1) mod num_players s)"
    using move_player_correct [OF r s(1), of 0 4] s(7) by simp
  then have "\<exists>s'. move_player s 0 4 = Some (True, s') \<and>
      player_positions s' = [(0, 4), (0, 3)] \<and> game_over s' \<and> winner s' = Some 0"
    by (simp add: s goal_cell_def)
  with run show "\<exists>s s'. run_clicks two_player_start approach_clicks = Some s \<and>
      move_player s 0 4 = Some (True, s') \<and> player_positions s' = [(0, 4), (0, 3)] \<and>
      game_over s' \<and> winner s' = Some 0"
    by blast
qed

text \<open>
  C4, as stated, fails: \<open>move_player\<close> and \<open>place_wall\<close> do not read \<open>game_over\<close>.  In the
  reachable state after \<open>winning_clicks\<close>, where player 0 has won, \<open>move_player\<close> still
  accepts the move to \<open>(1, 4)\<close> and moves the winner, and \<open>place_wall\<close> still accepts the
  vertical wall at \<open>(0, 0)\<close>, adds it and takes it from the winner's count.
\<close>

theorem game_over_not_checked_counterexample:
  "\<exists>s s1 s2. run_clicks two_player_start winning_clicks = Some s \<and> reachable s \<and>
     game_over s \<and> winner s = Some 0 \<and>
     move_player s 1 4 = Some (True, s1) \<and> player_positions s1 \<noteq> player_positions s \<and>
     place_wall s 0 0 ''vertical'' = Some (True, s2) \<and>
     vertical_walls s2 \<noteq> vertical_walls s \<and> walls_remaining s2 \<noteq> walls_remaining s"
proof -
  obtain s where run: "run_clicks two_player_start winning_clicks = Some s"
    and s: "game_over s" "winner s = Some 0" "player_positions s = [(0, 4), (0, 3)]"
      "vertical_walls s = {}" "walls_remaining s = [10, 10]"
    and m: "(case move_player s 1 4 of
           None \<Rightarrow> False
         | Some (ok, s') \<Rightarrow> ok \<and> player_positions s' = [(1, 4), (0, 3)] \<and> game_over s')"
    and w: "(case place_wall s 0 0 ''vertical'' of
           None \<Rightarrow> False
         | Some (ok, s') \<Rightarrow> ok \<and> vertical_walls s' = {(0, 0), (1, 0)} \<and>
             walls_remaining s' = [9, 10] \<and> current_player s' = 0)"
    using winning_scenario by (cases "run_clicks two_player_start winning_clicks") auto
  have r: "reachable s"
    by (rule run_clicks_reachable [OF reachable_start run])
  obtain s1 where s1: "move_player s 1 4 = Some (True, s1)"
    "player_positions s1 = [(1, 4), (0, 3)]"
    using m by (cases "move_player s 1 4") auto
  obtain s2 where s2: "place_wall s 0 0 ''vertical'' = Some (True, s2)"
    "vertical_walls s2 = {(0, 0), (1, 0)}" "walls_remaining s2 = [9, 10]"
    using w by (cases "place_wall s 0 0 ''vertical''") auto
  have p: "player_positions s1 \<noteq> player_positions s"
    by (simp add: s s1)
  have v: "vertical_walls s2 \<noteq> vertical_walls s"
    by (simp add: s s2)
  have wr: "walls_remaining s2 \<noteq> walls_remaining s"
    by (simp add: s s2)
  show ?thesis
    using run r s(1,2) s1(1) p s2(1) v wr by blast
qed

text \<open>
  C4, amended.  The test for a finished game is the guard of the event loop (line 742):
  once the game is over, a board click reaches neither \<open>move_player\<close> nor \<open>place_wall\<close>,
  whatever the mode and the cell, and the state stays as it is.
\<close>

theorem board_click_after_game_over:
  assumes "game_over s"
  shows "board_click wall_placement_mode selected_wall_type s r c = Some s"
  using assms by (simp add: board_click_def)

theorem board_click_after_game_over_witness:
  "\<exists>s. run_clicks two_player_start winning_clicks = Some s \<and> game_over s \<and>
     board_click False ''horizontal'' s 1 4 = Some s \<and>
     board_click True ''vertical'' s 0 0 = Some s"
proof -
  obtain s where run: "run_clicks two_player_start winning_clicks = Some s"
    and s: "game_over s"
    using winning_scenario by (cases "run_clicks two_player_start winning_clicks") auto
  show ?thesis
    using run s board_click_after_game_over [OF s, of False "''horizontal''" 1 4]
      board_click_after_game_over [OF s, of True "''vertical''" 0 0]
    by blast
qed

text \<open>
  C5.  Let the cell next to the current player in one of the four directions be on the
  board, not cut off by a wall, and occupied.  Then the cell two steps away in that
  direction is a possible move exactly when it is on the board, no wall lies between the
  occupied cell and it, and no player stands on it; when it is on the board but a wall
  lies before it, the direction contributes no move at all; and the occupied neighbour
  is not a possible move.
\<close>

theorem jump_over_opponent:
  assumes moves: "get_possible_moves s = Some pm"
    and d: "d \<in> set directions"
    and inb: "in_board (shift (player_positions s ! current_player s) d)"
    and free: "\<not> wall_blocks (horizontal_walls s) (vertical_walls s)
                 (player_positions s ! current_player s) d"
    and occ: "shift (player_positions s ! current_player s) d \<in> set (player_positions s)"
  shows "(shift (shift (player_positions s ! current_player s) d) d \<in> set pm \<longleftrightarrow>
            in_board (shift (shift (player_positions s ! current_player s) d) d) \<and>
            \<not> wall_blocks (horizontal_walls s) (vertical_walls s)
                (shift (player_positions s ! current_player s) d) d \<and>
            shift (shift (player_positions s ! current_player s) d) d
              \<notin> set (player_positions s)) \<and>
         (in_board (shift (shift (player_positions s ! current_player s) d) d) \<and>
          wall_blocks (horizontal_walls s) (vertical_walls s)
            (shift (player_positions s ! current_player s) d) d \<longrightarrow>
            moves_in_direction s (player_positions s ! current_player s) d = []) \<and>
         shift (player_positions s ! current_player s) d \<notin> set pm"
proof -
  let ?p = "player_positions s ! current_player s"
  let ?H = "horizontal_walls s" and ?V = "vertical_walls s"
  let ?ok = "in_board (shift (shift ?p d) d) \<and> \<not> wall_blocks ?H ?V (shift ?p d) d \<and>
      shift (shift ?p d) d \<notin> set (player_positions s)"
  have dir: "moves_in_direction s ?p d = (if ?ok then [shift (shift ?p d) d] else [])"
    using inb free occ by (simp add: moves_in_direction_axis [OF d])
  have set_pm: "set pm = (\<Union>d\<in>set directions. set (moves_in_direction s ?p d))"
    by (rule get_possible_moves_set [OF moves])
  have jump: "shift (shift ?p d) d \<in> set pm \<longleftrightarrow> ?ok"
  proof
    assume "shift (shift ?p d) d \<in> set pm"
    then obtain d' where d': "d' \<in> set directions"
        "shift (shift ?p d) d \<in> set (moves_in_direction s ?p d')"
      unfolding set_pm by blast
    have "d' = d"
      by (rule jump_cell_origin [OF d d'])
    with d'(2) have "shift (shift ?p d) d \<in> set (if ?ok then [shift (shift ?p d) d] else [])"
      using dir by simp
    then show ?ok
      by (cases ?ok) simp_all
  next
    assume ?ok
    then have "shift (shift ?p d) d \<in> set (moves_in_direction s ?p d)"
      unfolding dir by simp
    with d show "shift (shift ?p d) d \<in> set pm"
      unfolding set_pm by blast
  qed
  have blocked: "in_board (shift (shift ?p d) d) \<and> wall_blocks ?H ?V (shift ?p d) d \<longrightarrow>
      moves_in_direction s ?p d = []"
    unfolding dir by simp
  have nbr: "shift ?p d \<notin> set pm"
    using get_possible_moves_free [OF moves] occ by blast
  show ?thesis
    by (intro conjI) (rule jump, rule blocked, rule nbr)
qed

text \<open>
  The example of the specification: with player 0 at \<open>(4, 4)\<close>, player 1 at \<open>(3, 4)\<close> and no
  walls, \<open>(2, 4)\<close> is a possible move and \<open>(3, 4)\<close> is not.  With a horizontal wall above
  \<open>(3, 4)\<close> the upward direction contributes nothing.
\<close>

theorem jump_over_opponent_witness:
  "(\<exists>pm. get_possible_moves jump_example = Some pm \<and> (2, 4) \<in> set pm \<and> (3, 4) \<notin> set pm) \<and>
   (\<exists>pm. get_possible_moves (jump_example\<lparr>horizontal_walls := {(2, 4), (2, 5)}\<rparr>) = Some pm \<and>
      (2, 4) \<notin> set pm \<and> (3, 4) \<notin> set pm \<and>
      moves_in_direction (jump_example\<lparr>horizontal_walls := {(2, 4), (2, 5)}\<rparr>) (4, 4) (-1, 0) = [])"
proof
  let ?s = jump_example
  obtain pm where pm: "get_possible_moves ?s = Some pm"
    using get_possible_moves_Some [of ?s] by (auto simp: jump_example_def two_player_start_def)
  have d: "(-1, 0) \<in> set directions"
    by (simp add: directions_def)
  have inb: "in_board (shift (player_positions ?s ! current_player ?s) (-1, 0))"
    by (simp add: jump_example_def two_player_start_def shift_def in_board_def BOARD_SIZE_def)
  have free: "\<not> wall_blocks (horizontal_walls ?s) (vertical_walls ?s)
      (player_positions ?s ! current_player ?s) (-1, 0)"
    by (simp add: jump_example_def two_player_start_def wall_blocks_def)
  have occ: "shift (player_positions ?s ! current_player ?s) (-1, 0) \<in> set (player_positions ?s)"
    by (simp add: jump_example_def two_player_start_def shift_def)
  from jump_over_opponent [OF pm d inb free occ]
  have "(2, 4) \<in> set pm \<and> (3, 4) \<notin> set pm"
    by (simp add: jump_example_def two_player_start_def shift_def in_board_def BOARD_SIZE_def
        wall_blocks_def)
  with pm show "\<exists>pm. get_possible_moves ?s = Some pm \<and> (2, 4) \<in> set pm \<and> (3, 4) \<notin> set pm"
    by blast
next
  let ?s = "jump_example\<lparr>horizontal_walls := {(2, 4), (2, 5)}\<rparr>"
  obtain pm where pm: "get_possible_moves ?s = Some pm"
    using get_possible_moves_Some [of ?s] by (auto simp: jump_example_def two_player_start_def)
  have d: "(-1, 0) \<in> set directions"
    by (simp add: directions_def)
  have inb: "in_board (shift (player_positions ?s ! current_player ?s) (-1, 0))"
    by (simp add: jump_example_def two_player_start_def shift_def in_board_def BOARD_SIZE_def)
  have free: "\<not> wall_blocks (horizontal_walls ?s) (vertical_walls ?s)
      (player_positions ?s ! current_player ?s) (-1, 0)"
    by (simp add: jump_example_def two_player_start_def wall_blocks_def)
  have occ: "shift (player_positions ?s ! current_player ?s) (-1, 0) \<in> set (player_positions ?s)"
    by (simp add: jump_example_def two_player_start_def shift_def)
  from jump_over_opponent [OF pm d inb free occ]
  have "(2, 4) \<notin> set pm \<and> (3, 4) \<notin> set pm \<and> moves_in_direction ?s (4, 4) (-1, 0) = []"
    by (simp add: jump_example_def two_player_start_def shift_def in_board_def BOARD_SIZE_def
        wall_blocks_def)
  with pm show "\<exists>pm. get_possible_moves ?s = Some pm \<and> (2, 4) \<notin> set pm \<and> (3, 4) \<notin> set pm \<and>
      moves_in_direction ?s (4, 4) (-1, 0) = []"
    by blast
qed

text \<open>
  C6 fails on the code.  The side steps of line 147 for a vertical direction are
  \<open>(dr + 1, dc)\<close> and \<open>(dr - 1, dc)\<close>, and for a horizontal one \<open>(dr, dc + 1)\<close> and
  \<open>(dr, dc - 1)\<close>: they stay on the axis of the move, so the two cells tried are the
  occupied neighbour itself and a cell off the board (\<open>side_jumps_empty\<close> above), never a
  diagonal one.  In the reachable state after \<open>edge_clicks\<close> player 0 stands at \<open>(1, 4)\<close>
  below player 1 at \<open>(0, 4)\<close>, the straight jump leaves the board, both diagonal cells
  \<open>(0, 3)\<close> and \<open>(0, 5)\<close> are on the board, free and not cut off from \<open>(0, 4)\<close> by a wall,
  and the possible moves are \<open>(2, 4)\<close>, \<open>(1, 3)\<close> and \<open>(1, 5)\<close> only.
\<close>

theorem diagonal_fallback_missing:
  "\<exists>s. run_clicks two_player_start edge_clicks = Some s \<and> reachable s \<and>
     \<not> game_over s \<and> current_player s = 0 \<and> player_positions s = [(1, 4), (0, 4)] \<and>
     \<not> in_board (shift (shift (1, 4) (-1, 0)) (-1, 0)) \<and>
     in_board (0, 3) \<and> (0, 3) \<notin> set (player_positions s) \<and>
     \<not> wall_blocks (horizontal_walls s) (vertical_walls s) (0, 4) (0, -1) \<and>
     in_board (0, 5) \<and> (0, 5) \<notin> set (player_positions s) \<and>
     \<not> wall_blocks (horizontal_walls s) (vertical_walls s) (0, 4) (0, 1) \<and>
     get_possible_moves s = Some [(2, 4), (1, 3), (1, 5)]"
proof -
  obtain s where run: "run_clicks two_player_start edge_clicks = Some s"
    and s: "\<not> game_over s" "current_player s = 0" "player_positions s = [(1, 4), (0, 4)]"
      "horizontal_walls s = {(7, 0), (7, 1)}" "vertical_walls s = {}"
      "get_possible_moves s = Some [(2, 4), (1, 3), (1, 5)]"
    using edge_scenario by (cases "run_clicks two_player_start edge_clicks") auto
  have r: "reachable s"
    by (rule run_clicks_reachable [OF reachable_start run])
  have g: "\<not> in_board (shift (shift (1, 4) (-1, 0)) (-1, 0))" "in_board (0, 3)" "in_board (0, 5)"
    by (simp_all add: shift_def in_board_def BOARD_SIZE_def)
  have w: "\<not> wall_blocks (horizontal_walls s) (vertical_walls s) (0, 4) (0, -1)"
    "\<not> wall_blocks (horizontal_walls s) (vertical_walls s) (0, 4) (0, 1)"
    by (simp_all add: s wall_blocks_def)
  have o: "(0, 3) \<notin> set (player_positions s)" "(0, 5) \<notin> set (player_positions s)"
    by (simp_all add: s)
  show ?thesis
    using run r s(1,2,3,6) g w o by blast
qed

text \<open>
  C7.  When \<open>move_player\<close> or \<open>place_wall\<close> returns \<open>False\<close>, the player positions, both
  wall sets, the wall counts, the lists of placed walls, the current player, the
  game-over flag and the winner are those of the state before the call; the only field
  that differs is \<open>message\<close>.  The trial sets of \<open>is_valid_wall_placement\<close> are copies, and
  the live wall sets are among the fields that stay.
\<close>

theorem rejected_call_changes_nothing:
  assumes "move_player s r c = Some (False, s') \<or> place_wall s r c wall_type = Some (False, s')"
  shows "player_positions s' = player_positions s \<and>
         horizontal_walls s' = horizontal_walls s \<and>
         vertical_walls s' = vertical_walls s \<and>
         walls_remaining s' = walls_remaining s \<and>
         player_walls s' = player_walls s \<and>
         current_player s' = current_player s \<and>
         game_over s' = game_over s \<and>
         winner s' = winner s \<and>
         s' = s\<lparr>message := message s'\<rparr>"
  using assms
proof
  assume "move_player s r c = Some (False, s')"
  from move_player_rejected [OF this] show ?thesis by simp
next
  assume "place_wall s r c wall_type = Some (False, s')"
  from place_wall_rejected [OF this] show ?thesis by auto
qed

text \<open>
  At the opening position the move to \<open>(0, 0)\<close> and the wall anchored at \<open>(8, 8)\<close> are
  rejected, and so is any wall once player 0 has no wall left.
\<close>

theorem rejected_call_changes_nothing_witness:
  "(\<exists>s'. move_player two_player_start 0 0 = Some (False, s') \<and>
      player_positions s' = [(8, 4), (0, 4)] \<and> current_player s' = 0 \<and>
      s' = two_player_start\<lparr>message := message s'\<rparr>) \<and>
   (\<exists>s'. place_wall two_player_start 8 8 ''horizontal'' = Some (False, s') \<and>
      horizontal_walls s' = {} \<and> vertical_walls s' = {} \<and> walls_remaining s' = [10, 10] \<and>
      s' = two_player_start\<lparr>message := message s'\<rparr>) \<and>
   (\<exists>s'. place_wall (two_player_start\<lparr>walls_remaining := [0, 10]\<rparr>) 0 0 ''horizontal''
        = Some (False, s') \<and>
      horizontal_walls s' = {} \<and> walls_remaining s' = [0, 10] \<and>
      player_walls s' = player_walls two_player_start)"
proof (intro conjI)
  have m: "move_player two_player_start 0 0
      = Some (False, two_player_start\<lparr>message := Invalid_move\<rparr>)"
    by (simp add: move_player_def two_player_start_def get_possible_moves_def directions_def
        moves_in_direction_def Let_def shift_def in_board_def BOARD_SIZE_def wall_blocks_def)
  from rejected_call_changes_nothing [of two_player_start 0 0 _ "''horizontal''"] m
  have "player_positions (two_player_start\<lparr>message := Invalid_move\<rparr>) = [(8, 4), (0, 4)] \<and>
      current_player (two_player_start\<lparr>message := Invalid_move\<rparr>) = 0 \<and>
      two_player_start\<lparr>message := Invalid_move\<rparr> =
        two_player_start\<lparr>message := message (two_player_start\<lparr>message := Invalid_move\<rparr>)\<rparr>"
    by (simp add: two_player_start_def)
  with m show "\<exists>s'. move_player two_player_start 0 0 = Some (False, s') \<and>
      player_positions s' = [(8, 4), (0, 4)] \<and> current_player s' = 0 \<and>
      s' = two_player_start\<lparr>message := message s'\<rparr>"
    by blast
  have w: "place_wall two_player_start 8 8 ''horizontal''
      = Some (False, two_player_start\<lparr>message := Invalid_wall_placement\<rparr>)"
    by (simp add: place_wall_def is_valid_wall_placement_def two_player_start_def BOARD_SIZE_def)
  from rejected_call_changes_nothing [of two_player_start 8 8 _ "''horizontal''"] w
  have "horizontal_walls (two_player_start\<lparr>message := Invalid_wall_placement\<rparr>) = {} \<and>
      vertical_walls (two_player_start\<lparr>message := Invalid_wall_placement\<rparr>) = {} \<and>
      walls_remaining (two_player_start\<lparr>message := Invalid_wall_placement\<rparr>) = [10, 10] \<and>
      two_player_start\<lparr>message := Invalid_wall_placement\<rparr> =
        two_player_start\<lparr>message :=
          message (two_player_start\<lparr>message := Invalid_wall_placement\<rparr>)\<rparr>"
    by (simp add: two_player_start_def)
  with w show "\<exists>s'. place_wall two_player_start 8 8 ''horizontal'' = Some (False, s') \<and>
      horizontal_walls s' = {} \<and> vertical_walls s' = {} \<and> walls_remaining s' = [10, 10] \<and>
      s' = two_player_start\<lparr>message := message s'\<rparr>"
    by blast
  let ?z = "two_player_start\<lparr>walls_remaining := [0, 10]\<rparr>"
  have z: "place_wall ?z 0 0 ''horizontal'' = Some (False, ?z\<lparr>message := No_walls_remaining\<rparr>)"
    by (simp add: place_wall_def two_player_start_def)
  from rejected_call_changes_nothing [of ?z 0 0 _ "''horizontal''"] z
  have "horizontal_walls (?z\<lparr>message := No_walls_remaining\<rparr>) = {} \<and>
      walls_remaining (?z\<lparr>message := No_walls_remaining\<rparr>) = [0, 10] \<and>
      player_walls (?z\<lparr>message := No_walls_remaining\<rparr>) = player_walls two_player_start"
    by (simp add: two_player_start_def)
  with z show "\<exists>s'. place_wall ?z 0 0 ''horizontal'' = Some (False, s') \<and>
      horizontal_walls s' = {} \<and> walls_remaining s' = [0, 10] \<and>
      player_walls s' = player_walls two_player_start"
    by blast
qed

text \<open>
  C8.  Let the anchor of a candidate be in bounds and neither of its two blocker units be
  taken, in a well-formed state.  A horizontal candidate anchored at \<open>(r, c)\<close> is valid
  exactly when the vertical set does not hold both blocker units that meet at that
  intersection, \<open>(r, c)\<close> and \<open>(r + 1, c)\<close>, which lie between the candidate's two columns,
  and every player not on goal keeps a path; a vertical candidate is valid exactly when
  the horizontal set does not hold both \<open>(r, c)\<close> and \<open>(r, c + 1)\<close> and every such player
  keeps a path.  So the only rejection besides the path test is the crossing of a
  perpendicular pair at the candidate's own intersection.
\<close>

theorem crossing_rule:
  assumes "well_formed s" and "anchor_in_bounds r c" and "\<not> would_overlap s r c wall_type"
  shows "(wall_type = ''horizontal'' \<longrightarrow>
            is_valid_wall_placement s r c wall_type =
              Some (\<not> ((r, c) \<in> vertical_walls s \<and> (r + 1, c) \<in> vertical_walls s) \<and>
                    (\<forall>i<num_players s. goal_cell s i (player_positions s ! i) \<or>
                       has_path s (test_walls_h s r c wall_type)
                         (test_walls_v s r c wall_type) i))) \<and>
         (wall_type = ''vertical'' \<longrightarrow>
            is_valid_wall_placement s r c wall_type =
              Some (\<not> ((r, c) \<in> horizontal_walls s \<and> (r, c + 1) \<in> horizontal_walls s) \<and>
                    (\<forall>i<num_players s. goal_cell s i (player_positions s ! i) \<or>
                       has_path s (test_walls_h s r c wall_type)
                         (test_walls_v s r c wall_type) i)))"
proof -
  have len: "\<forall>i\<in>set [0..<num_players s]. i < length (player_positions s) \<and>
      i < length (win_rows s) \<and> i < length (win_cols s)"
    using assms(1) by (simp add: well_formed_def)
  have paths: "all_reach s (test_walls_h s r c wall_type) (test_walls_v s r c wall_type)
        [0..<num_players s] =
      Some (\<forall>i<num_players s. goal_cell s i (player_positions s ! i) \<or>
              has_path s (test_walls_h s r c wall_type) (test_walls_v s r c wall_type) i)"
    using all_reach_iff [OF len] by (auto simp: Ball_def)
  have stages: "is_valid_wall_placement s r c wall_type =
      (if would_cross s r c wall_type then Some False
       else all_reach s (test_walls_h s r c wall_type) (test_walls_v s r c wall_type)
              [0..<num_players s])"
    using assms(2,3) by (simp add: is_valid_wall_placement_stages)
  show ?thesis
    unfolding stages paths by (simp add: would_cross_def)
qed

text \<open>
  In \<open>crossing_example\<close> the horizontal candidate at \<open>(3, 3)\<close> crosses the vertical wall and
  the vertical candidate at \<open>(5, 5)\<close> crosses the horizontal wall; the horizontal
  candidate at \<open>(3, 4)\<close>, one column to the right of the vertical wall, is valid.
\<close>

theorem crossing_rule_witness:
  "is_valid_wall_placement crossing_example 3 3 ''horizontal'' = Some False \<and>
   is_valid_wall_placement crossing_example 5 5 ''vertical'' = Some False \<and>
   is_valid_wall_placement crossing_example 3 4 ''horizontal'' = Some True \<and>
   has_path crossing_example (test_walls_h crossing_example 3 4 ''horizontal'')
     (test_walls_v crossing_example 3 4 ''horizontal'') 0"
proof (intro conjI)
  note wf = crossing_example_well_formed
  have b: "anchor_in_bounds 3 3" "anchor_in_bounds 5 5" "anchor_in_bounds 3 4"
    by (simp_all add: anchor_in_bounds_def BOARD_SIZE_def)
  have o: "\<not> would_overlap crossing_example 3 3 ''horizontal''"
    "\<not> would_overlap crossing_example 5 5 ''vertical''"
    "\<not> would_overlap crossing_example 3 4 ''horizontal''"
    by (simp_all add: would_overlap_def crossing_example_def two_player_start_def)
  show "is_valid_wall_placement crossing_example 3 3 ''horizontal'' = Some False"
    using crossing_rule [OF wf b(1) o(1)]
    by (simp add: crossing_example_def two_player_start_def)
  show "is_valid_wall_placement crossing_example 5 5 ''vertical'' = Some False"
    using crossing_rule [OF wf b(2) o(2)]
    by (simp add: crossing_example_def two_player_start_def)
  show v: "is_valid_wall_placement crossing_example 3 4 ''horizontal'' = Some True"
    by (rule crossing_example_valid)
  have "\<forall>i<num_players crossing_example.
      goal_cell crossing_example i (player_positions crossing_example ! i) \<or>
      has_path crossing_example (test_walls_h crossing_example 3 4 ''horizontal'')
        (test_walls_v crossing_example 3 4 ''horizontal'') i"
    using crossing_rule [OF wf b(3) o(3)] v by simp
  moreover have "0 < num_players crossing_example"
    "\<not> goal_cell crossing_example 0 (player_positions crossing_example ! 0)"
    by (simp_all add: crossing_example_def two_player_start_def goal_cell_def)
  ultimately show "has_path crossing_example (test_walls_h crossing_example 3 4 ''horizontal'')
     (test_walls_v crossing_example 3 4 ''horizontal'') 0"
    by blast
qed

text \<open>
  C9.  In every reachable state the players stand on pairwise distinct cells; every
  possible move of the current player is a cell on which no player stands; and an
  accepted move puts the current player on such a cell, so the positions stay distinct.
  The starting positions are the first states of \<open>reachable\<close>.
\<close>

theorem players_on_distinct_cells:
  assumes "reachable s"
  shows "distinct (player_positions s) \<and>
         (\<forall>pm p. get_possible_moves s = Some pm \<and> p \<in> set pm \<longrightarrow>
            p \<notin> set (player_positions s)) \<and>
         (\<forall>r c s'. move_player s r c = Some (True, s') \<longrightarrow>
            (r, c) \<notin> set (player_positions s) \<and>
            player_positions s' = (player_positions s)[current_player s := (r, c)] \<and>
            distinct (player_positions s'))"
proof -
  have d: "distinct (player_positions s)"
    using assms by (rule reachable_distinct)
  have f: "\<forall>pm p. get_possible_moves s = Some pm \<and> p \<in> set pm \<longrightarrow>
            p \<notin> set (player_positions s)"
    using get_possible_moves_free by blast
  have m: "\<forall>r c s'. move_player s r c = Some (True, s') \<longrightarrow>
            (r, c) \<notin> set (player_positions s) \<and>
            player_positions s' = (player_positions s)[current_player s := (r, c)] \<and>
            distinct (player_positions s')"
  proof (intro allI impI)
    fix r c s' assume acc: "move_player s r c = Some (True, s')"
    from move_player_accepted [OF acc] obtain pm where
      pm: "get_possible_moves s = Some pm" "(r, c) \<in> set pm" by blast
    have "(r, c) \<notin> set (player_positions s)"
      by (rule get_possible_moves_free [OF pm])
    moreover have "player_positions s' = (player_positions s)[current_player s := (r, c)]"
      using move_player_accepted [OF acc] by simp
    moreover have "distinct (player_positions s')"
      by (rule move_player_distinct [OF d acc])
    ultimately show "(r, c) \<notin> set (player_positions s) \<and>
            player_positions s' = (player_positions s)[current_player s := (r, c)] \<and>
            distinct (player_positions s')" by simp
  qed
  show ?thesis
    by (intro conjI) (rule d, rule f, rule m)
qed

text \<open>
  At the opening position the two players stand on distinct cells, \<open>(7, 4)\<close> is free, and
  after the move to it the cells are distinct.
\<close>

theorem players_on_distinct_cells_witness:
  "distinct (player_positions two_player_start) \<and>
   (7, 4) \<notin> set (player_positions two_player_start) \<and>
   (\<exists>s'. move_player two_player_start 7 4 = Some (True, s') \<and>
      player_positions s' = [(7, 4), (0, 4)] \<and> distinct (player_positions s'))"
proof -
  note t = players_on_distinct_cells [OF reachable_start]
  obtain s' where m: "move_player two_player_start 7 4 = Some (True, s')"
    using first_move_accepted by (cases "move_player two_player_start 7 4") auto
  from t m have "(7, 4) \<notin> set (player_positions two_player_start) \<and>
      player_positions s' = (player_positions two_player_start)
        [current_player two_player_start := (7, 4)] \<and>
      distinct (player_positions s')"
    by blast
  moreover have "(player_positions two_player_start)[current_player two_player_start := (7, 4)]
      = [(7, 4), (0, 4)]"
    by (simp add: two_player_start_def)
  ultimately show ?thesis
    using t m by auto
qed

text \<open>
  C10.  In every reachable state each player has a list of placed walls, and the
  player's remaining count is not negative and equals the allotment (10, 10, 5, 5) less
  the length of that list.  When the current player's count is 0, \<open>place_wall\<close> returns
  \<open>False\<close> and changes nothing but the message.  An accepted placement appends one entry
  to the current player's list and takes one from that player's count, and leaves the
  lists and counts of the other players as they were.
\<close>

theorem wall_counts_accounted:
  "(reachable s \<longrightarrow>
      (\<forall>i<num_players s. \<exists>placed. player_walls s i = Some placed \<and>
         0 \<le> walls_remaining s ! i \<and>
         walls_remaining s ! i = [10, 10, 5, 5] ! i - int (length placed))) \<and>
   (current_player s < length (walls_remaining s) \<and>
    walls_remaining s ! current_player s = 0 \<longrightarrow>
      place_wall s r c wall_type = Some (False, s\<lparr>message := No_walls_remaining\<rparr>)) \<and>
   (\<forall>s'. place_wall s r c wall_type = Some (True, s') \<longrightarrow>
      (\<exists>placed entry. player_walls s (current_player s) = Some placed \<and>
         player_walls s' (current_player s) = Some (placed @ [entry]) \<and>
         (\<forall>i. i \<noteq> current_player s \<longrightarrow> player_walls s' i = player_walls s i)) \<and>
      walls_remaining s' ! current_player s = walls_remaining s ! current_player s - 1 \<and>
      (\<forall>i. i \<noteq> current_player s \<longrightarrow> walls_remaining s' ! i = walls_remaining s ! i))"
proof -
  have a: "reachable s \<longrightarrow>
      (\<forall>i<num_players s. \<exists>placed. player_walls s i = Some placed \<and>
         0 \<le> walls_remaining s ! i \<and>
         walls_remaining s ! i = [10, 10, 5, 5] ! i - int (length placed))"
    using reachable_accounted [of s] by (simp add: walls_accounted_def)
  have z: "current_player s < length (walls_remaining s) \<and>
      walls_remaining s ! current_player s = 0 \<longrightarrow>
      place_wall s r c wall_type = Some (False, s\<lparr>message := No_walls_remaining\<rparr>)"
    by (simp add: place_wall_def)
  have p: "\<forall>s'. place_wall s r c wall_type = Some (True, s') \<longrightarrow>
      (\<exists>placed entry. player_walls s (current_player s) = Some placed \<and>
         player_walls s' (current_player s) = Some (placed @ [entry]) \<and>
         (\<forall>i. i \<noteq> current_player s \<longrightarrow> player_walls s' i = player_walls s i)) \<and>
      walls_remaining s' ! current_player s = walls_remaining s ! current_player s - 1 \<and>
      (\<forall>i. i \<noteq> current_player s \<longrightarrow> walls_remaining s' ! i = walls_remaining s ! i)"
  proof (intro allI impI)
    fix s' assume acc: "place_wall s r c wall_type = Some (True, s')"
    note f = place_wall_accepted [OF acc]
    from f obtain placed where placed: "player_walls s (current_player s) = Some placed"
      "player_walls s' = (player_walls s)(current_player s \<mapsto>
          placed @ [(if wall_type = ''horizontal'' then ''h'' else ''v'', r, c)])"
      by blast
    have "\<exists>placed entry. player_walls s (current_player s) = Some placed \<and>
               player_walls s' (current_player s) = Some (placed @ [entry]) \<and>
               (\<forall>i. i \<noteq> current_player s \<longrightarrow> player_walls s' i = player_walls s i)"
      using placed by simp
    moreover have "walls_remaining s' ! current_player s =
        walls_remaining s ! current_player s - 1"
      using f by simp
    moreover have "\<forall>i. i \<noteq> current_player s \<longrightarrow> walls_remaining s' ! i = walls_remaining s ! i"
      using f by simp
    ultimately show "(\<exists>placed entry. player_walls s (current_player s) = Some placed \<and>
               player_walls s' (current_player s) = Some (placed @ [entry]) \<and>
               (\<forall>i. i \<noteq> current_player s \<longrightarrow> player_walls s' i = player_walls s i)) \<and>
            walls_remaining s' ! current_player s = walls_remaining s ! current_player s - 1 \<and>
            (\<forall>i. i \<noteq> current_player s \<longrightarrow> walls_remaining s' ! i = walls_remaining s ! i)"
      by simp
  qed
  show ?thesis
    by (intro conjI) (rule a, rule z, rule p)
qed

text \<open>
  After \<open>fence_clicks\<close> player 0 has placed one wall and has 9 left; with no wall left a
  placement is refused; the first wall of the opening position is recorded and counted.
\<close>

theorem wall_counts_accounted_witness:
  "(\<exists>s placed. run_clicks two_player_start fence_clicks = Some s \<and>
      player_walls s 0 = Some placed \<and> walls_remaining s ! 0 = 9 \<and> length placed = 1) \<and>
   place_wall (two_player_start\<lparr>walls_remaining := [0, 10]\<rparr>) 0 0 ''horizontal''
     = Some (False, two_player_start\<lparr>walls_remaining := [0, 10],
                      message := No_walls_remaining\<rparr>) \<and>
   (\<exists>s' entry. place_wall two_player_start 7 4 ''horizontal'' = Some (True, s') \<and>
      player_walls s' 0 = Some [entry] \<and> walls_remaining s' ! 0 = 9 \<and>
      walls_remaining s' ! 1 = 10)"
proof (intro conjI)
  obtain s where run: "run_clicks two_player_start fence_clicks = Some s"
    and n: "num_players s = 2" and wr: "walls_remaining s = [9, 9]"
    using fence_scenario by (cases "run_clicks two_player_start fence_clicks") auto
  have r: "reachable s"
    by (rule run_clicks_reachable [OF reachable_start run])
  have "\<forall>i<num_players s. \<exists>placed. player_walls s i = Some placed \<and>
      0 \<le> walls_remaining s ! i \<and>
      walls_remaining s ! i = [10, 10, 5, 5] ! i - int (length placed)"
    using wall_counts_accounted [of s 0 0 "''horizontal''"] r by blast
  moreover have "0 < num_players s"
    using n by simp
  ultimately have "\<exists>placed. player_walls s 0 = Some placed \<and>
      0 \<le> walls_remaining s ! 0 \<and>
      walls_remaining s ! 0 = [10, 10, 5, 5] ! 0 - int (length placed)"
    by blast
  then obtain placed where "player_walls s 0 = Some placed"
      "walls_remaining s ! 0 = [10, 10, 5, 5] ! 0 - int (length placed)"
    by blast
  then have "player_walls s 0 = Some placed \<and> walls_remaining s ! 0 = 9 \<and> length placed = 1"
    by (simp add: wr)
  with run show "\<exists>s placed. run_clicks two_player_start fence_clicks = Some s \<and>
      player_walls s 0 = Some placed \<and> walls_remaining s ! 0 = 9 \<and> length placed = 1"
    by blast
  let ?z = "two_player_start\<lparr>walls_remaining := [0, 10]\<rparr>"
  have "current_player ?z < length (walls_remaining ?z) \<and>
      walls_remaining ?z ! current_player ?z = 0"
    by (simp add: two_player_start_def)
  then have "place_wall ?z 0 0 ''horizontal'' = Some (False, ?z\<lparr>message := No_walls_remaining\<rparr>)"
    using wall_counts_accounted [of ?z 0 0 "''horizontal''"] by blast
  then show "place_wall ?z 0 0 ''horizontal''
     = Some (False, two_player_start\<lparr>walls_remaining := [0, 10],
                      message := No_walls_remaining\<rparr>)"
    by simp
  obtain s' where acc: "place_wall two_player_start 7 4 ''horizontal'' = Some (True, s')"
    using first_wall_accepted by (cases "place_wall two_player_start 7 4 ''horizontal''") auto
  have "(\<exists>placed entry. player_walls two_player_start (current_player two_player_start)
          = Some placed \<and>
         player_walls s' (current_player two_player_start) = Some (placed @ [entry]) \<and>
         (\<forall>i. i \<noteq> current_player two_player_start \<longrightarrow>
            player_walls s' i = player_walls two_player_start i)) \<and>
      walls_remaining s' ! current_player two_player_start
        = walls_remaining two_player_start ! current_player two_player_start - 1 \<and>
      (\<forall>i. i \<noteq> current_player two_player_start \<longrightarrow>
         walls_remaining s' ! i = walls_remaining two_player_start ! i)"
    using wall_counts_accounted [of two_player_start 7 4 "''horizontal''"] acc by blast
  then have "(\<exists>entry. player_walls s' 0 = Some [entry]) \<and> walls_remaining s' ! 0 = 9 \<and>
      walls_remaining s' ! 1 = 10"
    by (simp add: two_player_start_def)
  with acc show "\<exists>s' entry. place_wall two_player_start 7 4 ''horizontal'' = Some (True, s') \<and>
      player_walls s' 0 = Some [entry] \<and> walls_remaining s' ! 0 = 9 \<and>
      walls_remaining s' ! 1 = 10"
    by blast
qed

end
